theory Spec2Isabelle
  imports Complex_Main
begin

section \<open>Common data\<close>

text \<open>
  A sample is one row of a frame: one value per channel.  A frame is a list of
  rows.  Python exceptions are values of type \<open>error\<close>.
\<close>

type_synonym row = "real list"

datatype error =
    ValueError string
  | IndexError
  | KeyError
  | TypeError
  | ZeroDivisionError

section \<open>Epoch extractor: \<open>gpype/backend/flow/trigger.py\<close>\<close>

text \<open>
  Python's \<open>round\<close> on a number: to the nearest integer, ties to the even one.
  The product \<open>time * sampling_rate\<close> is taken over exact rationals.
\<close>

definition py_round :: "rat \<Rightarrow> int" where
  "py_round x =
     (let f = \<lfloor>x\<rfloor>; d = x - of_int f
      in if d < 1 / 2 then f
         else if 1 / 2 < d then f + 1
         else if even f then f else f + 1)"

record trigger_state =
  buf_input :: "row list"
  countdown :: "int list"
  samples_pre :: int
  samples_post :: int
  target :: "int list"
  last_trigger :: int

text \<open>
  The part of \<open>Trigger.setup\<close> after the call of the parent's setup: the check of
  the input frame size and of the sampling rate, the conversion of the two time
  windows to sample counts, and the initial state.  \<open>channel_count\<close> is the
  channel count of the negotiated output context.  \<open>np.zeros\<close> raises on a
  negative dimension and \<open>min\<close> raises on an empty list.
\<close>

definition trigger_setup ::
  "rat \<Rightarrow> rat \<Rightarrow> int list \<Rightarrow> int \<Rightarrow> rat option \<Rightarrow> nat \<Rightarrow> error + trigger_state" where
  "trigger_setup time_pre time_post tgt frame_size_in sampling_rate channel_count =
     (if frame_size_in \<noteq> 1 then Inl (ValueError ''Input frame size must be 1.'')
      else case sampling_rate of
        None \<Rightarrow> Inl (ValueError ''Sampling rate must be provided in context.'')
      | Some sr \<Rightarrow>
          (let pre = py_round (time_pre * sr);
               post = py_round (time_post * sr);
               frame_size_out = pre + post
           in if frame_size_out < 0 then Inl (ValueError ''negative dimensions are not allowed'')
              else if tgt = [] then Inl (ValueError ''min() arg is an empty sequence'')
              else Inr \<lparr> buf_input = replicate (nat frame_size_out) (replicate channel_count 0),
                         countdown = [],
                         samples_pre = pre,
                         samples_post = post,
                         target = tgt,
                         last_trigger = min_list tgt - 1 \<rparr>))"

text \<open>
  Lines 237-238 of \<open>Trigger.step\<close>: every row moves up by one and the newest sample
  is written into the last row.  On a buffer without rows the write to row \<open>-1\<close>
  raises; a sample of one value is broadcast over the channels, any other
  length that differs from the buffer's raises.
\<close>

definition shift_buffer :: "row list \<Rightarrow> row \<Rightarrow> error + row list" where
  "shift_buffer buf s =
     (if buf = [] then Inl IndexError
      else let cc = length (last buf)
           in if length s = cc then Inr (tl buf @ [s])
              else if length s = 1 then Inr (tl buf @ [replicate cc (hd s)])
              else Inl (ValueError ''could not broadcast input array''))"

text \<open>Lines 241-247: a change of the trigger value that is a target starts a countdown.\<close>

definition detect_trigger :: "trigger_state \<Rightarrow> int \<Rightarrow> trigger_state" where
  "detect_trigger st trig =
     (if trig \<noteq> last_trigger st
      then st\<lparr> countdown := (if trig \<in> set (target st)
                               then countdown st @ [samples_post st]
                               else countdown st),
               last_trigger := trig \<rparr>
      else st)"

text \<open>
  Lines 250-257: the loop over \<open>reversed(range(len(countdown)))\<close>.  The second
  argument is the number of indices still to visit; index \<open>i\<close> is visited next.
  The first countdown found at zero or below is popped and the loop returns at
  once, leaving the lower indices as they are.  The flag says whether an epoch
  is returned.
\<close>

fun countdown_loop :: "int list \<Rightarrow> nat \<Rightarrow> int list \<times> bool" where
  "countdown_loop cd 0 = (cd, False)"
| "countdown_loop cd (Suc i) =
     (let cd' = cd[i := cd ! i - 1]
      in if cd' ! i \<le> 0 then (take i cd' @ drop (Suc i) cd', True)
         else countdown_loop cd' i)"

text \<open>One call of \<open>Trigger.step\<close> on a sample and a trigger value.\<close>

definition trigger_step ::
  "trigger_state \<Rightarrow> row \<times> int \<Rightarrow> error + (trigger_state \<times> row list option)" where
  "trigger_step st inp =
     (case shift_buffer (buf_input st) (fst inp) of
        Inl e \<Rightarrow> Inl e
      | Inr b \<Rightarrow>
          (let st1 = detect_trigger (st\<lparr>buf_input := b\<rparr>) (snd inp);
               r = countdown_loop (countdown st1) (length (countdown st1))
           in Inr (st1\<lparr>countdown := fst r\<rparr>, if snd r then Some b else None)))"

text \<open>A run of steps, collecting what each step returns; it stops at the first error.\<close>

fun trigger_run ::
  "trigger_state \<Rightarrow> (row \<times> int) list \<Rightarrow> error + (trigger_state \<times> row list option list)" where
  "trigger_run st [] = Inr (st, [])"
| "trigger_run st (x # xs) =
     (case trigger_step st x of
        Inl e \<Rightarrow> Inl e
      | Inr (st', out) \<Rightarrow>
          (case trigger_run st' xs of
             Inl e \<Rightarrow> Inl e
           | Inr (st'', outs) \<Rightarrow> Inr (st'', out # outs)))"

text \<open>The states of a Trigger node after setup and any number of successful steps.\<close>

inductive trigger_reachable :: "trigger_state \<Rightarrow> bool" where
  after_setup:
    "trigger_setup time_pre time_post tgt fsz sr cc = Inr st \<Longrightarrow> trigger_reachable st"
| after_step:
    "trigger_reachable st \<Longrightarrow> trigger_step st inp = Inr (st', out) \<Longrightarrow> trigger_reachable st'"

text \<open>The invariant of the countdown list between steps.\<close>

definition countdown_inv :: "trigger_state \<Rightarrow> bool" where
  "countdown_inv st \<longleftrightarrow>
     sorted_wrt (<) (countdown st) \<and>
     (\<forall>c \<in> set (countdown st). 0 < c \<and> c < samples_post st)"

text \<open>
  Setup followed by a run of steps: what each step returned, or the first error.
\<close>

definition trigger_session ::
  "rat \<Rightarrow> rat \<Rightarrow> int list \<Rightarrow> int \<Rightarrow> rat option \<Rightarrow> nat \<Rightarrow> (row \<times> int) list
   \<Rightarrow> error + row list option list" where
  "trigger_session time_pre time_post tgt fsz sr cc inp =
     (case trigger_setup time_pre time_post tgt fsz sr cc of
        Inl e \<Rightarrow> Inl e
      | Inr st0 \<Rightarrow>
          (case trigger_run st0 inp of
             Inl e \<Rightarrow> Inl e
           | Inr (st', outs) \<Rightarrow> Inr outs))"

text \<open>
  The rolling window: the buffer \<open>b\<close> after the samples \<open>h\<close> have been shifted in,
  oldest first.
\<close>

definition window :: "row list \<Rightarrow> row list \<Rightarrow> row list" where
  "window b h = drop (length h) (b @ h)"

text \<open>
  The input of the test in which the trigger port reads 1 at sample index \<open>k\<close> and
  0 at every other sample.
\<close>

definition feed_single_trigger :: "row list \<Rightarrow> nat \<Rightarrow> (row \<times> int) list" where
  "feed_single_trigger xs k = map (\<lambda>i. (xs ! i, if i = k then 1 else 0)) [0..<length xs]"

section \<open>Port-context negotiation: \<open>gpype/backend/core/io_node.py\<close>\<close>

text \<open>
  The values of context attributes: \<open>None\<close>, a number (Python's \<open>1 == 1.0\<close>, so one
  constructor serves ints and floats) or a string.  A context is a dictionary
  from attribute names to values, and the argument of setup is a dictionary from
  port names to contexts; both are association lists in insertion order, read
  with \<open>map_of\<close>.
\<close>

datatype pyval = PNone | PNum rat | PStr string

type_synonym port_context = "(string \<times> pyval) list"

type_synonym port_contexts = "(string \<times> port_context) list"

text \<open>\<open>md.get(key, None)\<close>.\<close>

definition dict_get :: "port_context \<Rightarrow> string \<Rightarrow> pyval" where
  "dict_get md key = (case map_of md key of None \<Rightarrow> PNone | Some v \<Rightarrow> v)"

text \<open>\<open>md[key] = v\<close>: an existing key keeps its place, a new one goes to the end.\<close>

fun dict_set :: "port_context \<Rightarrow> string \<Rightarrow> pyval \<Rightarrow> port_context" where
  "dict_set [] key v = [(key, v)]"
| "dict_set ((k, w) # md) key v = (if k = key then (k, v) # md else (k, w) # dict_set md key v)"

text \<open>
  \<open>[md.get(key, None) for md in port_context_in.values()]\<close> without the entries that
  are \<open>None\<close>.
\<close>

definition declared :: "string \<Rightarrow> port_contexts \<Rightarrow> pyval list" where
  "declared key pcs = filter (\<lambda>v. v \<noteq> PNone) (map (\<lambda>pc. dict_get (snd pc) key) pcs)"

text \<open>\<open>len(set(xs))\<close>.\<close>

definition count_distinct :: "pyval list \<Rightarrow> nat" where
  "count_distinct xs = length (remdups xs)"

text \<open>Lines 85-89: every context has the keys \<open>channel_count\<close> and \<open>frame_size\<close>.\<close>

fun check_required :: "port_contexts \<Rightarrow> error option" where
  "check_required [] = None"
| "check_required (pc # rest) =
     (if map_of (snd pc) ''channel_count'' = None
      then Some (ValueError ''channel_count must be provided in context.'')
      else if map_of (snd pc) ''frame_size'' = None
      then Some (ValueError ''frame_size must be provided in context.'')
      else check_required rest)"

text \<open>
  \<open>max(channel_counts)\<close>: the list always holds the number 1, so a string in it
  makes the comparison raise; otherwise it is the greatest number.
\<close>

fun is_num :: "pyval \<Rightarrow> bool" where
  "is_num (PNum r) = True"
| "is_num v = False"

fun nums :: "pyval list \<Rightarrow> rat list" where
  "nums [] = []"
| "nums (PNum r # vs) = r # nums vs"
| "nums (v # vs) = nums vs"

definition py_max :: "pyval list \<Rightarrow> error + pyval" where
  "py_max vs = (if list_all is_num vs then Inr (PNum (fold max (nums vs) (hd (nums vs))))
                else Inl TypeError)"

text \<open>
  Lines 114-116: every context whose \<open>channel_count\<close> is not \<open>None\<close> gets the maximum.
\<close>

definition broadcast_channel_count :: "pyval \<Rightarrow> port_contexts \<Rightarrow> port_contexts" where
  "broadcast_channel_count m pcs =
     map (\<lambda>pc. (fst pc, if dict_get (snd pc) ''channel_count'' \<noteq> PNone
                        then dict_set (snd pc) ''channel_count'' m else snd pc)) pcs"

text \<open>
  Lines 100-116 as one stage: the channel counts with the single channel added,
  the check for more than two distinct values, and the broadcast.  \<open>max\<close> is only
  called when some context has a channel count.
\<close>

definition negotiate_channel_count :: "port_contexts \<Rightarrow> error + port_contexts" where
  "negotiate_channel_count pcs =
     (let channel_counts = declared ''channel_count'' pcs @ [PNum 1]
      in if 2 < count_distinct channel_counts
         then Inl (ValueError ''All ports must have the same channel count.'')
         else if declared ''channel_count'' pcs = [] then Inr pcs
         else (case py_max channel_counts of
                 Inl e \<Rightarrow> Inl e
               | Inr m \<Rightarrow> Inr (broadcast_channel_count m pcs)))"

text \<open>
  The merged value of one attribute: a plain value, or the mapping from port
  name to that port's value.
\<close>

datatype mval = Plain pyval | PerPort "(string \<times> pyval) list"

text \<open>Lines 145-148: the dictionary \<open>values\<close> of the ports that have the key.\<close>

definition port_values :: "port_contexts \<Rightarrow> string \<Rightarrow> (string \<times> pyval) list" where
  "port_values pcs key =
     concat (map (\<lambda>pc. case map_of (snd pc) key of None \<Rightarrow> [] | Some v \<Rightarrow> [(fst pc, v)]) pcs)"

text \<open>Lines 150-167: the three cases of the merge.\<close>

definition merge_key :: "port_contexts \<Rightarrow> string \<Rightarrow> mval" where
  "merge_key pcs key =
     (let vals = port_values pcs key; value_list = map snd vals
      in if length vals = 1 then Plain (hd value_list)
         else if list_all (\<lambda>v. v = hd value_list) (tl value_list) then Plain (hd value_list)
         else PerPort vals)"

text \<open>Line 141 and the loop of line 144: one entry for every key of any context.\<close>

definition all_keys :: "port_contexts \<Rightarrow> string list" where
  "all_keys pcs = remdups (concat (map (\<lambda>pc. map fst (snd pc)) pcs))"

definition merged_context :: "port_contexts \<Rightarrow> (string \<times> mval) list" where
  "merged_context pcs = map (\<lambda>key. (key, merge_key pcs key)) (all_keys pcs)"

text \<open>
  What setup returns: the dictionary from output port names to contexts.  Every
  output port is given the same dictionary object, so the result is a store of
  the context objects allocated and, for each output port, the address of its
  context.
\<close>

record setup_out =
  store :: "(string \<times> mval) list list"
  port_context_out :: "(string \<times> nat) list"

text \<open>
  \<open>IONode.setup\<close>.  The input contexts are mutated in place, so the function
  returns them as they are left, beside the result or the exception.
  \<open>output_ports\<close> are the names of the configured output ports.
\<close>

definition io_setup ::
  "string list \<Rightarrow> port_contexts \<Rightarrow> port_contexts \<times> (error + setup_out)" where
  "io_setup output_ports pcs =
     (case check_required pcs of
        Some e \<Rightarrow> (pcs, Inl e)
      | None \<Rightarrow>
         if count_distinct (declared ''sampling_rate'' pcs) \<noteq> 1
         then (pcs, Inl (ValueError ''All ports must have the same sampling rate.''))
         else (case negotiate_channel_count pcs of
                 Inl e \<Rightarrow> (pcs, Inl e)
               | Inr pcs' \<Rightarrow>
                  if count_distinct (declared ''frame_size'' pcs') \<noteq> 1
                  then (pcs', Inl (ValueError ''All ports must have the same frame size.''))
                  else if 1 < count_distinct
                         (filter (\<lambda>tp. tp \<noteq> PStr ''Any'') (declared ''type'' pcs'))
                  then (pcs', Inl (ValueError ''All ports must have the same type.''))
                  else (pcs', Inr \<lparr> store = [merged_context pcs'],
                                    port_context_out = map (\<lambda>name. (name, 0)) output_ports \<rparr>)))"

section \<open>Channel router: \<open>gpype/backend/flow/router.py\<close>\<close>


definition ROUTER_ALL :: "int list" where
  "ROUTER_ALL = [-1]"




text \<open>Python's \<open>xs[n]\<close>: a negative index counts from the end.\<close>

definition py_index :: "'a list \<Rightarrow> int \<Rightarrow> error + 'a" where
  "py_index xs n =
     (let len = int (length xs); j = (if n < 0 then n + len else n)
      in if 0 \<le> j \<and> j < len then Inr (xs ! nat j) else Inl IndexError)"

text \<open>A list of results, or the first exception.\<close>

fun collect :: "(error + 'a) list \<Rightarrow> error + 'a list" where
  "collect [] = Inr []"
| "collect (r # rs) =
     (case r of
        Inl e \<Rightarrow> Inl e
      | Inr x \<Rightarrow> (case collect rs of Inl e \<Rightarrow> Inl e | Inr xs \<Rightarrow> Inr (x # xs)))"

text \<open>
  \<open>range(port_context_in[name]["channel_count"])\<close>: the port or the key may be
  missing, and \<open>range\<close> takes integers only.
\<close>

definition channel_range :: "port_contexts \<Rightarrow> string \<Rightarrow> error + int list" where
  "channel_range pcs name =
     (case map_of pcs name of
        None \<Rightarrow> Inl KeyError
      | Some md \<Rightarrow>
          (case map_of md ''channel_count'' of
             None \<Rightarrow> Inl KeyError
           | Some (PNum r) \<Rightarrow>
               if r = of_int \<lfloor>r\<rfloor> then Inr (map int [0..<nat \<lfloor>r\<rfloor>]) else Inl TypeError
           | Some v \<Rightarrow> Inl TypeError))"

text \<open>
  Lines 176-190 of \<open>Router.setup\<close>: the input map, one pair of port name and
  channel index for every selected channel, in the order of the input ports.
\<close>

definition build_input_map ::
  "(string \<times> int list) list \<Rightarrow> port_contexts \<Rightarrow> error + (string \<times> int) list" where
  "build_input_map input_selector pcs =
     (case collect (map (\<lambda>ps. if snd ps = ROUTER_ALL
                              then (case channel_range pcs (fst ps) of
                                      Inl e \<Rightarrow> Inl e
                                    | Inr sel \<Rightarrow> Inr (map (\<lambda>n. (fst ps, n)) sel))
                              else Inr (map (\<lambda>n. (fst ps, n)) (snd ps)))
                       input_selector) of
        Inl e \<Rightarrow> Inl e
      | Inr parts \<Rightarrow> Inr (concat parts))"

text \<open>
  Lines 193-205: the channel map of every output port; its selector indexes the
  input map.
\<close>

definition build_map ::
  "(string \<times> int list) list \<Rightarrow> (string \<times> int) list
   \<Rightarrow> error + (string \<times> (string \<times> int) list) list" where
  "build_map output_selector input_map =
     collect (map (\<lambda>ps. let sel = (if snd ps = ROUTER_ALL
                                    then map int [0..<length input_map] else snd ps)
                        in (case collect (map (py_index input_map) sel) of
                              Inl e \<Rightarrow> Inl e
                            | Inr m \<Rightarrow> Inr (fst ps, m)))
                  output_selector)"

text \<open>The context of an output port: lines 241-264.\<close>

record router_context =
  inherited :: "(string \<times> port_context) list"
  channel_count :: nat
  sampling_rate :: pyval
  frame_size :: pyval
  port_type :: pyval

definition router_context_of ::
  "string \<Rightarrow> port_contexts \<Rightarrow> pyval \<Rightarrow> pyval \<Rightarrow> pyval \<Rightarrow> (string \<times> int) list
   \<Rightarrow> error + router_context" where
  "router_context_of node_name pcs sr fsz tp m =
     (case collect (map (\<lambda>key1. case map_of pcs key1 of
                                   None \<Rightarrow> Inl KeyError
                                 | Some md \<Rightarrow>
                                     Inr (node_name @ ''_'' @ key1,
                                          filter (\<lambda>kv. fst kv \<noteq> ''id'' \<and> fst kv \<noteq> ''name'') md))
                       (remdups (map fst m))) of
        Inl e \<Rightarrow> Inl e
      | Inr inh \<Rightarrow> Inr \<lparr> inherited = inh, channel_count = length m, sampling_rate = sr,
                           frame_size = fsz, port_type = tp \<rparr>)"

text \<open>
  \<open>Router.setup\<close>: the channel map kept in the node and the contexts of the
  output ports.
\<close>

definition router_setup ::
  "string \<Rightarrow> (string \<times> int list) list \<Rightarrow> (string \<times> int list) list \<Rightarrow> port_contexts
   \<Rightarrow> error + ((string \<times> (string \<times> int) list) list \<times> (string \<times> router_context) list)" where
  "router_setup node_name input_selector output_selector pcs =
     (case build_input_map input_selector pcs of
        Inl e \<Rightarrow> Inl e
      | Inr input_map \<Rightarrow>
       (case build_map output_selector input_map of
          Inl e \<Rightarrow> Inl e
        | Inr cmap \<Rightarrow>
           if count_distinct (declared ''sampling_rate'' pcs) \<noteq> 1
           then Inl (ValueError ''All ports must have the same sampling rate.'')
           else if count_distinct (declared ''frame_size'' pcs) \<noteq> 1
           then Inl (ValueError ''All ports must have the same frame size.'')
           else if 1 < count_distinct (filter (\<lambda>tp. tp \<noteq> PStr ''Any'') (declared ''type'' pcs))
           then Inl (ValueError ''All ports must have the same type.'')
           else
             (let sr = hd (declared ''sampling_rate'' pcs);
                  fsz = hd (declared ''frame_size'' pcs);
                  types = filter (\<lambda>tp. tp \<noteq> PStr ''Any'') (declared ''type'' pcs);
                  tp = (if types \<noteq> [] then hd types else PStr ''Any'')
              in case collect (map (\<lambda>pm. case router_context_of node_name pcs sr fsz tp (snd pm) of
                                             Inl e \<Rightarrow> Inl e
                                           | Inr c \<Rightarrow> Inr (fst pm, c)) cmap) of
                   Inl e \<Rightarrow> Inl e
                 | Inr ctxs \<Rightarrow> Inr (cmap, ctxs))))"

text \<open>
  The data of a step: a two-dimensional array with its number of columns and its
  rows, a one-dimensional array, or \<open>None\<close>; a port may also be absent from the
  dictionary.
\<close>

datatype array2 = Arr (ncols: nat) (rows: "row list")

datatype pydata = DNone | DVec "real list" | DArr array2

text \<open>
  Lines 297-300: \<open>data[port_in][:, ch_in]\<close> with \<open>ch_in\<close> a list of one index, which
  gives one column; any exception gives \<open>np.zeros((1, 1))\<close> instead.
\<close>

definition select_channel :: "(string \<times> pydata) list \<Rightarrow> string \<times> int \<Rightarrow> array2" where
  "select_channel data m =
     (case map_of data (fst m) of
        Some (DArr a) \<Rightarrow>
          (let c = int (ncols a); j = (if snd m < 0 then snd m + c else snd m)
           in if 0 \<le> j \<and> j < c then Arr 1 (map (\<lambda>r. [r ! nat j]) (rows a))
              else Arr 1 [[0]])
      | _ \<Rightarrow> Arr 1 [[0]])"

text \<open>
  \<open>np.hstack\<close> on two-dimensional arrays: it raises on an empty list and when the
  arrays differ in their number of rows.
\<close>

definition hstack :: "array2 list \<Rightarrow> error + array2" where
  "hstack as =
     (if as = [] then Inl (ValueError ''need at least one array to concatenate'')
      else let n = length (rows (hd as))
           in if list_all (\<lambda>a. length (rows a) = n) as
              then Inr (Arr (sum_list (map ncols as))
                            (map (\<lambda>i. concat (map (\<lambda>a. rows a ! i) as)) [0..<n]))
              else Inl (ValueError ''all the input array dimensions except for the concatenation axis must match exactly''))"

text \<open>\<open>Router.step\<close>: one output array for every output port, or the first exception.\<close>

definition router_step ::
  "(string \<times> (string \<times> int) list) list \<Rightarrow> (string \<times> pydata) list
   \<Rightarrow> error + (string \<times> array2) list" where
  "router_step cmap data =
     collect (map (\<lambda>pm. case hstack (map (select_channel data) (snd pm)) of
                          Inl e \<Rightarrow> Inl e
                        | Inr a \<Rightarrow> Inr (fst pm, a)) cmap)"

section \<open>Fixed-rate source: \<open>gpype/backend/sources/base/fixed_rate_source.py\<close>\<close>

text \<open>
  The fields of a \<open>FixedRateSource\<close> that the timing uses, and the local variable
  \<open>sample_count\<close> of the thread function.  Times are the readings of
  \<open>time.time()\<close>, in seconds.
\<close>

record fixed_rate_source =
  rate :: real
  running :: bool
  time_start :: "real option"
  sample_count :: nat

text \<open>The constructor: the rate must be positive; nothing runs and no start time is set.\<close>

definition source_init :: "real \<Rightarrow> error + fixed_rate_source" where
  "source_init r =
     (if r \<le> 0 then Inl (ValueError ''sampling_rate must be greater than zero.'')
      else Inr \<lparr> rate = r, running = False, time_start = None, sample_count = 0 \<rparr>)"

text \<open>
  Lines 151-160, the head of \<open>_thread_function\<close>, run at clock reading \<open>now\<close>: the
  start time is set only if it is \<open>None\<close>, and the sample count starts at 0.
\<close>

definition thread_begin :: "fixed_rate_source \<Rightarrow> real \<Rightarrow> fixed_rate_source" where
  "thread_begin st now =
     st\<lparr> time_start := (case time_start st of None \<Rightarrow> Some now | Some t \<Rightarrow> Some t),
         sample_count := 0 \<rparr>"

text \<open>
  \<open>start\<close>: if the source is not running, it is marked running and the thread
  function begins; the clock reading is the one the new thread takes.
\<close>

definition source_start :: "fixed_rate_source \<Rightarrow> real \<Rightarrow> fixed_rate_source" where
  "source_start st now =
     (if \<not> running st then thread_begin (st\<lparr>running := True\<rparr>) now else st)"

text \<open>\<open>stop\<close>: the running flag is cleared; no other field is written.\<close>

definition source_stop :: "fixed_rate_source \<Rightarrow> fixed_rate_source" where
  "source_stop st = (if running st then st\<lparr>running := False\<rparr> else st)"

text \<open>
  One iteration of the loop of lines 162-184 at clock reading \<open>now\<close>: the new
  state, the expected time of the sample, and how long the thread sleeps before
  the cycle.
\<close>

definition loop_iteration ::
  "fixed_rate_source \<Rightarrow> real \<Rightarrow> error + (fixed_rate_source \<times> real \<times> real)" where
  "loop_iteration st now =
     (case time_start st of
        None \<Rightarrow> Inl TypeError
      | Some t0 \<Rightarrow>
          (let n = sample_count st + 1;
               expected_next_sample_time = t0 + real n / rate st;
               sleep_time = expected_next_sample_time - now
           in Inr (st\<lparr>sample_count := n\<rparr>, expected_next_sample_time,
                   if sleep_time > 1 / 1000 then sleep_time else 0)))"

section \<open>Frame aggregator: \<open>gpype/backend/flow/framer.py\<close>\<close>

text \<open>
  \<open>Framer.__init__\<close>: the frame size defaults to 1 and must be at least 1; it is
  also the node's decimation factor.
\<close>

definition framer_init :: "int option \<Rightarrow> error + nat" where
  "framer_init frame_size_arg =
     (let fs = (case frame_size_arg of None \<Rightarrow> 1 | Some n \<Rightarrow> n)
      in if fs < 1 then Inl (ValueError ''frame_size must be greater or equal 1.'')
         else Inr (nat fs))"

record framer_state =
  buf :: "row list"
  framer_frame_size :: nat

text \<open>
  The part of \<open>Framer.setup\<close> after the parent's setup: the input frame size must
  be 1, and the buffer of \<open>frame_size\<close> rows of zeros is allocated.
\<close>

definition framer_setup :: "nat \<Rightarrow> int \<Rightarrow> nat \<Rightarrow> error + framer_state" where
  "framer_setup frame_size_out frame_size_in n_channels =
     (if frame_size_in \<noteq> 1 then Inl (ValueError ''Input frame size must be 1.'')
      else Inr \<lparr> buf = replicate frame_size_out (replicate n_channels 0),
                 framer_frame_size = frame_size_out \<rparr>)"

text \<open>
  The assignment \<open>self._buf[buf_idx, :] = data[PORT_IN][-1:, :]\<close>: the last row of
  the input frame goes into the row \<open>buf_idx\<close>; a row of one value is broadcast,
  and an input without rows or with another width raises.
\<close>

definition write_row :: "row list \<Rightarrow> nat \<Rightarrow> row list \<Rightarrow> error + row list" where
  "write_row b buf_idx frame =
     (if buf_idx \<ge> length b then Inl IndexError
      else if frame = [] then Inl (ValueError ''could not broadcast input array'')
      else let cc = length (b ! buf_idx); s = last frame
           in if length s = cc then Inr (b[buf_idx := s])
              else if length s = 1 then Inr (b[buf_idx := replicate cc (hd s)])
              else Inl (ValueError ''could not broadcast input array''))"

text \<open>
  \<open>Framer.step\<close>.  \<open>counter\<close> and \<open>decimation_step\<close> are what \<open>self.get_counter()\<close> and
  \<open>self.is_decimation_step()\<close> return during the call.
\<close>

definition framer_step ::
  "framer_state \<Rightarrow> nat \<Rightarrow> bool \<Rightarrow> row list \<Rightarrow> error + (framer_state \<times> row list option)" where
  "framer_step st counter decimation_step frame =
     (if framer_frame_size st = 0 then Inl ZeroDivisionError
      else case write_row (buf st) (counter mod framer_frame_size st) frame of
             Inl e \<Rightarrow> Inl e
           | Inr b \<Rightarrow> Inr (st\<lparr>buf := b\<rparr>, if decimation_step then Some b else None))"

text \<open>
  Modelled from the spec: the step counter of a node, which the library
  \<open>ioiocore\<close> keeps (its \<open>get_counter\<close> and \<open>is_decimation_step\<close> are not among the
  sources).  The spec calls it the node's own step count, has the sample written
  to row \<open>c mod F\<close>, and has the buffer emitted when it "has just been filled":
  during the step with index \<open>n\<close>, counted from 0, the counter reads \<open>n\<close>, and the
  step is a decimation step when the count of steps including it, \<open>n + 1\<close>, is a
  multiple of the decimation factor.
\<close>

definition get_counter :: "nat \<Rightarrow> nat" where
  "get_counter n = n"

definition is_decimation_step :: "nat \<Rightarrow> nat \<Rightarrow> bool" where
  "is_decimation_step decimation_factor n \<longleftrightarrow> (n + 1) mod decimation_factor = 0"

text \<open>
  The steps with the indices \<open>n\<close>, \<open>n + 1\<close>, ... on a list of input frames; what each
  step returned, or the first error.
\<close>

fun framer_run ::
  "framer_state \<Rightarrow> nat \<Rightarrow> row list list \<Rightarrow> error + (framer_state \<times> row list option list)" where
  "framer_run st n [] = Inr (st, [])"
| "framer_run st n (frame # frames) =
     (case framer_step st (get_counter n)
             (is_decimation_step (framer_frame_size st) n) frame of
        Inl e \<Rightarrow> Inl e
      | Inr (st', out) \<Rightarrow>
          (case framer_run st' (Suc n) frames of
             Inl e \<Rightarrow> Inl e
           | Inr (st'', outs) \<Rightarrow> Inr (st'', out # outs)))"

text \<open>
  Construction, setup and a run over a stream of single samples, each given to
  a step as a frame of one row.
\<close>

definition framer_session ::
  "int option \<Rightarrow> nat \<Rightarrow> row list \<Rightarrow> error + row list option list" where
  "framer_session frame_size_arg n_channels samples =
     (case framer_init frame_size_arg of
        Inl e \<Rightarrow> Inl e
      | Inr F \<Rightarrow>
         (case framer_setup F 1 n_channels of
            Inl e \<Rightarrow> Inl e
          | Inr st \<Rightarrow>
             (case framer_run st 0 (map (\<lambda>s. [s]) samples) of
                Inl e \<Rightarrow> Inl e
              | Inr (st', outs) \<Rightarrow> Inr outs)))"

text \<open>The frames among the results of the steps, in order.\<close>

definition emitted :: "'a option list \<Rightarrow> 'a list" where
  "emitted outs = List.map_filter id outs"

text \<open>
  The invariant of the buffer after \<open>n\<close> steps on the samples \<open>xs\<close>: every sample of
  the last \<open>F\<close> steps is in the row of its index modulo \<open>F\<close>.
\<close>

definition framer_inv :: "row list \<Rightarrow> nat \<Rightarrow> nat \<Rightarrow> nat \<Rightarrow> row list \<Rightarrow> bool" where
  "framer_inv xs F cc n b \<longleftrightarrow>
     length b = F \<and> list_all (\<lambda>r. length r = cc) b \<and>
     list_all (\<lambda>m. n \<le> m + F \<longrightarrow> b ! (m mod F) = xs ! m) [0..<n]"

text \<open>
  What the step with index \<open>i\<close> is to return: the \<open>F\<close> samples up to and including
  sample \<open>i\<close> when \<open>i + 1\<close> is a multiple of \<open>F\<close>, and nothing otherwise.
\<close>

definition framer_outputs :: "nat \<Rightarrow> row list \<Rightarrow> nat \<Rightarrow> row list option" where
  "framer_outputs F xs i = (if F dvd Suc i then Some (take F (drop (Suc i - F) xs)) else None)"

section \<open>Properties of the epoch extractor\<close>

lemma countdown_loop_no_fire:
  "n \<le> length cd \<Longrightarrow> \<forall>i<n. 1 < cd ! i \<Longrightarrow>
   countdown_loop cd n = (map (\<lambda>c. c - 1) (take n cd) @ drop n cd, False)"
proof (induction n arbitrary: cd)
  case 0
  then show ?case by simp
next
  case (Suc n)
  let ?cd' = "cd[n := cd ! n - 1]"
  from Suc.prems have n: "n < length cd" by simp
  have pos: "\<not> ?cd' ! n \<le> 0" using Suc.prems n by (simp add: not_le)
  have ih: "countdown_loop ?cd' n = (map (\<lambda>c. c - 1) (take n ?cd') @ drop n ?cd', False)"
    using Suc.prems n by (intro Suc.IH) auto
  have d: "drop n ?cd' = (cd ! n - 1) # drop (Suc n) cd"
    using n by (simp add: drop_update_cancel Cons_nth_drop_Suc[symmetric] upd_conv_take_nth_drop)
  show ?case using pos ih d n
    by (simp add: Let_def take_Suc_conv_app_nth)
qed

lemma countdown_loop_fire_head:
  "n \<le> length rest \<Longrightarrow> \<forall>i<n. 1 < rest ! i \<Longrightarrow> c \<le> 1 \<Longrightarrow>
   countdown_loop (c # rest) (Suc n) = (map (\<lambda>c. c - 1) (take n rest) @ drop n rest, True)"
proof (induction n arbitrary: rest)
  case 0
  then show ?case by (simp add: Let_def)
next
  case (Suc n)
  let ?r' = "rest[n := rest ! n - 1]"
  from Suc.prems have n: "n < length rest" by simp
  have pos: "\<not> ?r' ! n \<le> 0" using Suc.prems n by (simp add: not_le)
  have ih: "countdown_loop (c # ?r') (Suc n) = (map (\<lambda>c. c - 1) (take n ?r') @ drop n ?r', True)"
    using Suc.prems n by (intro Suc.IH) auto
  have d: "drop n ?r' = (rest ! n - 1) # drop (Suc n) rest"
    using n by (simp add: Cons_nth_drop_Suc[symmetric] upd_conv_take_nth_drop)
  have "countdown_loop (c # rest) (Suc (Suc n)) = countdown_loop (c # ?r') (Suc n)"
    using pos n by (simp add: Let_def)
  then show ?case using ih d n
    by (simp add: take_Suc_conv_app_nth)
qed


lemma countdown_loop_step:
  assumes "\<forall>x\<in>set (tl cd). 1 < x"
  shows "countdown_loop cd (length cd) =
           (filter (\<lambda>c. 0 < c) (map (\<lambda>c. c - 1) cd), cd \<noteq> [] \<and> hd cd \<le> 1)"
proof (cases cd)
  case Nil
  then show ?thesis by simp
next
  case (Cons c rest)
  with assms have rest: "\<forall>x\<in>set rest. 1 < x" by simp
  then have keep: "filter (\<lambda>c. 0 < c) (map (\<lambda>c. c - 1) rest) = map (\<lambda>c. c - 1) rest"
    by (induction rest) auto
  show ?thesis
  proof (cases "c \<le> 1")
    case True
    have "countdown_loop (c # rest) (Suc (length rest)) = (map (\<lambda>c. c - 1) rest, True)"
      using countdown_loop_fire_head[of "length rest" rest c] rest True by simp
    then show ?thesis using Cons True keep by simp
  next
    case False
    have "countdown_loop cd (length cd) = (map (\<lambda>c. c - 1) cd, False)"
      using countdown_loop_no_fire[of "length cd" cd] rest False Cons
      by (auto simp: nth_Cons split: nat.splits)
    then show ?thesis using Cons False keep by simp
  qed
qed

lemma detect_trigger_fields [simp]:
  "samples_post (detect_trigger st t) = samples_post st"
  "target (detect_trigger st t) = target st"
  "buf_input (detect_trigger st t) = buf_input st"
  "samples_pre (detect_trigger st t) = samples_pre st"
  by (simp_all add: detect_trigger_def)

lemma detect_trigger_countdown:
  "countdown (detect_trigger st t) = countdown st \<or>
   countdown (detect_trigger st t) = countdown st @ [samples_post st]"
  by (simp add: detect_trigger_def)

lemma sorted_pos_tl:
  "sorted_wrt (<) (cd::int list) \<Longrightarrow> \<forall>c\<in>set cd. 0 < c \<Longrightarrow> \<forall>x\<in>set (tl cd). 1 < x"
  by (cases cd) auto

lemma detect_trigger_tl:
  assumes "countdown_inv st"
  shows "\<forall>x\<in>set (tl (countdown (detect_trigger st t))). 1 < x"
proof -
  let ?cd = "countdown st"
  have s: "sorted_wrt (<) ?cd" and p: "\<forall>c\<in>set ?cd. 0 < c \<and> c < samples_post st"
    using assms by (auto simp: countdown_inv_def)
  have a: "\<forall>x\<in>set (tl ?cd). 1 < x" using sorted_pos_tl s p by blast
  have b: "\<forall>x\<in>set (tl (?cd @ [samples_post st])). 1 < x"
  proof (cases ?cd)
    case Nil
    then show ?thesis by simp
  next
    case (Cons c rest)
    then have "1 < samples_post st" using p by fastforce
    then show ?thesis using a Cons by auto
  qed
  show ?thesis using detect_trigger_countdown[of st t] a b by metis
qed

lemma trigger_step_countdown:
  assumes "countdown_inv st" and "trigger_step st inp = Inr (st', out)"
  shows "countdown st' =
           filter (\<lambda>c. 0 < c) (map (\<lambda>c. c - 1) (countdown (detect_trigger st (snd inp))))"
    and "(out \<noteq> None) =
           (countdown (detect_trigger st (snd inp)) \<noteq> [] \<and>
            hd (countdown (detect_trigger st (snd inp))) \<le> 1)"
    and "samples_post st' = samples_post st"
proof -
  from assms(2) obtain b where b: "shift_buffer (buf_input st) (fst inp) = Inr b"
    by (auto simp: trigger_step_def split: sum.splits)
  let ?st1 = "detect_trigger (st\<lparr>buf_input := b\<rparr>) (snd inp)"
  have cd1: "countdown ?st1 = countdown (detect_trigger st (snd inp))"
    by (simp add: detect_trigger_def)
  have inv1: "countdown_inv (st\<lparr>buf_input := b\<rparr>)"
    using assms(1) by (simp add: countdown_inv_def)
  have loop: "countdown_loop (countdown ?st1) (length (countdown ?st1)) =
      (filter (\<lambda>c. 0 < c) (map (\<lambda>c. c - 1) (countdown ?st1)),
       countdown ?st1 \<noteq> [] \<and> hd (countdown ?st1) \<le> 1)"
    using countdown_loop_step[OF detect_trigger_tl[OF inv1]] .
  have st': "st' = ?st1\<lparr>countdown := fst (countdown_loop (countdown ?st1) (length (countdown ?st1)))\<rparr>"
    and out: "out = (if snd (countdown_loop (countdown ?st1) (length (countdown ?st1))) then Some b else None)"
    using assms(2) b by (auto simp: trigger_step_def Let_def)
  show "countdown st' =
           filter (\<lambda>c. 0 < c) (map (\<lambda>c. c - 1) (countdown (detect_trigger st (snd inp))))"
    using st' loop cd1 by simp
  show "(out \<noteq> None) =
           (countdown (detect_trigger st (snd inp)) \<noteq> [] \<and>
            hd (countdown (detect_trigger st (snd inp))) \<le> 1)"
    using out loop cd1 by simp
  show "samples_post st' = samples_post st" using st' by simp
qed

lemma dec_filter_inv:
  assumes "sorted_wrt (<) (cd::int list)" and "\<forall>c\<in>set cd. c \<le> sp"
  shows "sorted_wrt (<) (filter (\<lambda>c. 0 < c) (map (\<lambda>c. c - 1) cd))"
    and "\<forall>c\<in>set (filter (\<lambda>c. 0 < c) (map (\<lambda>c. c - 1) cd)). 0 < c \<and> c < sp"
proof -
  have "sorted_wrt (<) (map (\<lambda>c. c - 1) cd)"
    using assms(1) by (simp add: sorted_wrt_map)
  then show "sorted_wrt (<) (filter (\<lambda>c. 0 < c) (map (\<lambda>c. c - 1) cd))"
    by (rule sorted_wrt_filter)
  show "\<forall>c\<in>set (filter (\<lambda>c. 0 < c) (map (\<lambda>c. c - 1) cd)). 0 < c \<and> c < sp"
  proof
    fix c assume "c \<in> set (filter (\<lambda>c. 0 < c) (map (\<lambda>c. c - 1) cd))"
    then obtain d where "d \<in> set cd" "c = d - 1" "0 < c" by auto
    with assms(2) show "0 < c \<and> c < sp" by fastforce
  qed
qed

lemma countdown_inv_step:
  assumes "countdown_inv st" and "trigger_step st inp = Inr (st', out)"
  shows "countdown_inv st'"
proof -
  let ?cd' = "countdown (detect_trigger st (snd inp))"
  have s: "sorted_wrt (<) (countdown st)"
    and p: "\<forall>c\<in>set (countdown st). 0 < c \<and> c < samples_post st"
    using assms(1) by (simp_all add: countdown_inv_def)
  have a: "sorted_wrt (<) (countdown st @ [samples_post st])"
    using s p by (simp add: sorted_wrt_append)
  have b: "\<forall>c\<in>set (countdown st @ [samples_post st]). c \<le> samples_post st"
    using p by (simp add: less_imp_le)
  have c: "\<forall>c\<in>set (countdown st). c \<le> samples_post st"
    using p by (simp add: less_imp_le)
  have "sorted_wrt (<) ?cd' \<and> (\<forall>c\<in>set ?cd'. c \<le> samples_post st)"
  proof (rule disjE[OF detect_trigger_countdown[of st "snd inp"]])
    assume "?cd' = countdown st"
    then show ?thesis using s c by simp
  next
    assume "?cd' = countdown st @ [samples_post st]"
    then show ?thesis using a b by simp
  qed
  then have "sorted_wrt (<) (filter (\<lambda>c. 0 < c) (map (\<lambda>c. c - 1) ?cd'))"
    and "\<forall>c\<in>set (filter (\<lambda>c. 0 < c) (map (\<lambda>c. c - 1) ?cd')). 0 < c \<and> c < samples_post st"
    using dec_filter_inv[of ?cd' "samples_post st"] by blast+
  then show ?thesis
    unfolding countdown_inv_def trigger_step_countdown(1)[OF assms] trigger_step_countdown(3)[OF assms]
    by blast
qed

lemma trigger_setup_Inr:
  assumes "trigger_setup tp tpo tgt fsz sr cc = Inr st"
  shows "countdown st = []" and "target st = tgt" and "tgt \<noteq> []"
    and "last_trigger st = min_list tgt - 1"
proof -
  from assms obtain r where sr: "sr = Some r" and f: "fsz = 1"
    by (cases sr) (simp_all add: trigger_setup_def split: if_splits)
  from assms sr f have ne: "tgt \<noteq> []"
    by (auto simp: trigger_setup_def Let_def split: if_splits)
  from assms sr f ne
  have st: "st = \<lparr> buf_input = replicate (nat (py_round (tp * r) + py_round (tpo * r))) (replicate cc 0),
                   countdown = [], samples_pre = py_round (tp * r),
                   samples_post = py_round (tpo * r), target = tgt,
                   last_trigger = min_list tgt - 1 \<rparr>"
    by (simp add: trigger_setup_def Let_def split: if_splits)
  show "countdown st = []" by (simp add: st)
  show "target st = tgt" by (simp add: st)
  show "tgt \<noteq> []" by (rule ne)
  show "last_trigger st = min_list tgt - 1" by (simp add: st)
qed

lemma countdown_inv_setup:
  "trigger_setup tp tpo tgt fsz sr cc = Inr st \<Longrightarrow> countdown_inv st"
  using trigger_setup_Inr(1)[of tp tpo tgt fsz sr cc st] by (simp add: countdown_inv_def)

lemma trigger_reachable_inv: "trigger_reachable st \<Longrightarrow> countdown_inv st"
proof (induction rule: trigger_reachable.induct)
  case (after_setup time_pre time_post tgt fsz sr cc st)
  then show ?case by (rule countdown_inv_setup)
next
  case (after_step st inp st' out)
  then show ?case using countdown_inv_step by blast
qed


lemma setup_example:
  "trigger_setup (1/250) (1/125) [3, 1, 2] 1 (Some 250) 1 =
     Inr \<lparr> buf_input = [[0], [0], [0]], countdown = [], samples_pre = 1, samples_post = 2,
           target = [3, 1, 2], last_trigger = 0 \<rparr>"
  by (simp add: trigger_setup_def py_round_def Let_def numeral_3_eq_3)


lemma filter_dec_keep:
  "\<forall>x\<in>set xs. (1::int) < x \<Longrightarrow> filter (\<lambda>c. 0 < c) (map (\<lambda>c. c - 1) xs) = map (\<lambda>c. c - 1) xs"
  by (induction xs) auto

lemma filter_dec_none:
  "\<forall>x\<in>set xs. (1::int) < x \<Longrightarrow> filter (\<lambda>c. c - 1 \<le> 0) xs = []"
  by (induction xs) auto

text \<open>
  C10: in every state of the Trigger node reached from setup by any sequence of
  steps, the active countdowns are strictly increasing from index 0 (the oldest)
  to the newest and all are positive.  On any further step at most one countdown
  reaches zero; the loop with its early return leaves exactly the list in which
  every countdown was decremented and those at zero or below were removed, so no
  surviving countdown misses its decrement; a step returns at most one epoch,
  and when it returns one, the countdown removed is the one at index 0, so
  epochs leave in the order of their triggers.
\<close>

theorem trigger_countdown_invariant:
  assumes "trigger_reachable st"
  shows "sorted_wrt (<) (countdown st)
         \<and> (\<forall>c \<in> set (countdown st). 0 < c)
         \<and> (\<forall>inp st' out. trigger_step st inp = Inr (st', out) \<longrightarrow>
               (let cd = countdown (detect_trigger st (snd inp))
                in length (filter (\<lambda>c. c - 1 \<le> 0) cd) \<le> 1
                   \<and> countdown st' = filter (\<lambda>c. 0 < c) (map (\<lambda>c. c - 1) cd)
                   \<and> (out = None \<longrightarrow> countdown st' = map (\<lambda>c. c - 1) cd)
                   \<and> (out \<noteq> None \<longrightarrow> cd \<noteq> [] \<and> hd cd - 1 \<le> 0
                                       \<and> countdown st' = map (\<lambda>c. c - 1) (tl cd))))"
proof -
  have inv: "countdown_inv st" using assms by (rule trigger_reachable_inv)
  then have a: "sorted_wrt (<) (countdown st)" and b: "\<forall>c \<in> set (countdown st). 0 < c"
    by (simp_all add: countdown_inv_def)
  have c: "\<forall>inp st' out. trigger_step st inp = Inr (st', out) \<longrightarrow>
               (let cd = countdown (detect_trigger st (snd inp))
                in length (filter (\<lambda>c. c - 1 \<le> 0) cd) \<le> 1
                   \<and> countdown st' = filter (\<lambda>c. 0 < c) (map (\<lambda>c. c - 1) cd)
                   \<and> (out = None \<longrightarrow> countdown st' = map (\<lambda>c. c - 1) cd)
                   \<and> (out \<noteq> None \<longrightarrow> cd \<noteq> [] \<and> hd cd - 1 \<le> 0
                                       \<and> countdown st' = map (\<lambda>c. c - 1) (tl cd)))"
  proof (intro allI impI)
    fix inp st' out
    assume step: "trigger_step st inp = Inr (st', out)"
    let ?cd = "countdown (detect_trigger st (snd inp))"
    have tl: "\<forall>x\<in>set (tl ?cd). 1 < x" using inv by (rule detect_trigger_tl)
    have cd': "countdown st' = filter (\<lambda>c. 0 < c) (map (\<lambda>c. c - 1) ?cd)"
      and fired: "(out \<noteq> None) = (?cd \<noteq> [] \<and> hd ?cd \<le> 1)"
      using trigger_step_countdown[OF inv step] by blast+
    have keep: "filter (\<lambda>c. 0 < c) (map (\<lambda>c. c - 1) (tl ?cd)) = map (\<lambda>c. c - 1) (tl ?cd)"
      using tl by (rule filter_dec_keep)
    have none: "filter (\<lambda>c. c - 1 \<le> 0) (tl ?cd) = []"
      using tl by (rule filter_dec_none)
    have one: "length (filter (\<lambda>c. c - 1 \<le> 0) ?cd) \<le> 1"
      using none by (cases ?cd) auto
    have n: "out = None \<longrightarrow> countdown st' = map (\<lambda>c. c - 1) ?cd"
      using fired cd' keep by (cases ?cd) auto
    have s: "out \<noteq> None \<longrightarrow> ?cd \<noteq> [] \<and> hd ?cd - 1 \<le> 0 \<and> countdown st' = map (\<lambda>c. c - 1) (tl ?cd)"
      using fired cd' keep by (cases ?cd) auto
    show "let cd = ?cd
                in length (filter (\<lambda>c. c - 1 \<le> 0) cd) \<le> 1
                   \<and> countdown st' = filter (\<lambda>c. 0 < c) (map (\<lambda>c. c - 1) cd)
                   \<and> (out = None \<longrightarrow> countdown st' = map (\<lambda>c. c - 1) cd)
                   \<and> (out \<noteq> None \<longrightarrow> cd \<noteq> [] \<and> hd cd - 1 \<le> 0
                                       \<and> countdown st' = map (\<lambda>c. c - 1) (tl cd))"
      unfolding Let_def using one cd' n s by blast
  qed
  show ?thesis using a b c by blast
qed


lemma step_example_1:
  "trigger_step \<lparr> buf_input = [[0], [0], [0]], countdown = [], samples_pre = 1, samples_post = 2,
           target = [3, 1, 2], last_trigger = 0 \<rparr> ([5], 1) =
   Inr (\<lparr> buf_input = [[0], [0], [5]], countdown = [1], samples_pre = 1, samples_post = 2,
           target = [3, 1, 2], last_trigger = 1 \<rparr>, None)"
  by (simp add: trigger_step_def shift_buffer_def detect_trigger_def Let_def)

lemma step_example_2:
  "trigger_step \<lparr> buf_input = [[0], [0], [5]], countdown = [1], samples_pre = 1, samples_post = 2,
           target = [3, 1, 2], last_trigger = 1 \<rparr> ([6], 0) =
   Inr (\<lparr> buf_input = [[0], [5], [6]], countdown = [], samples_pre = 1, samples_post = 2,
           target = [3, 1, 2], last_trigger = 0 \<rparr>, Some [[0], [5], [6]])"
  by (simp add: trigger_step_def shift_buffer_def detect_trigger_def Let_def)

theorem trigger_countdown_invariant_witness:
  "trigger_reachable \<lparr> buf_input = [[0], [0], [5]], countdown = [1], samples_pre = 1,
           samples_post = 2, target = [3, 1, 2], last_trigger = 1 \<rparr>
   \<and> trigger_step \<lparr> buf_input = [[0], [0], [5]], countdown = [1], samples_pre = 1, samples_post = 2,
           target = [3, 1, 2], last_trigger = 1 \<rparr> ([6], 0) =
       Inr (\<lparr> buf_input = [[0], [5], [6]], countdown = [], samples_pre = 1, samples_post = 2,
           target = [3, 1, 2], last_trigger = 0 \<rparr>, Some [[0], [5], [6]])
   \<and> sorted_wrt (<) [1::int]
   \<and> length (filter (\<lambda>c. c - 1 \<le> 0) [1::int]) \<le> 1
   \<and> [] = map (\<lambda>c. c - 1) (tl [1::int])"
proof -
  have r: "trigger_reachable \<lparr> buf_input = [[0], [0], [5]], countdown = [1], samples_pre = 1,
           samples_post = 2, target = [3, 1, 2], last_trigger = 1 \<rparr>"
    using after_step[OF after_setup[OF setup_example] step_example_1] .
  show ?thesis
    using trigger_countdown_invariant[OF r] r step_example_2 by simp
qed

lemma trigger_run_append:
  "trigger_run st (xs @ ys) =
     (case trigger_run st xs of
        Inl e \<Rightarrow> Inl e
      | Inr (st', o1) \<Rightarrow>
          (case trigger_run st' ys of
             Inl e \<Rightarrow> Inl e
           | Inr (st'', o2) \<Rightarrow> Inr (st'', o1 @ o2)))"
  by (induction xs arbitrary: st) (auto split: sum.splits prod.splits)

lemma shift_buffer_ok:
  "b \<noteq> [] \<Longrightarrow> \<forall>r\<in>set b. length r = cc \<Longrightarrow> length s = cc \<Longrightarrow>
   shift_buffer b s = Inr (tl b @ [s])"
  by (simp add: shift_buffer_def Let_def)

lemma countdown_loop_all_above:
  "\<forall>c\<in>set cd. 1 < c \<Longrightarrow> countdown_loop cd (length cd) = (map (\<lambda>c. c - 1) cd, False)"
  using countdown_loop_no_fire[of "length cd" cd] by simp

lemma quiet_step:
  assumes "b \<noteq> []" "\<forall>r\<in>set b. length r = cc" "length s = cc"
    and "\<forall>c\<in>set cd. 1 < c" "v \<notin> set tgt"
  shows "trigger_step \<lparr>buf_input = b, countdown = cd, samples_pre = p, samples_post = q,
                        target = tgt, last_trigger = l\<rparr> (s, v) =
         Inr (\<lparr>buf_input = tl b @ [s], countdown = map (\<lambda>c. c - 1) cd, samples_pre = p,
               samples_post = q, target = tgt, last_trigger = v\<rparr>, None)"
  using assms shift_buffer_ok[OF assms(1-3)] countdown_loop_all_above[OF assms(4)]
  by (simp add: trigger_step_def detect_trigger_def Let_def)

lemma quiet_run:
  assumes "b \<noteq> []" "\<forall>r\<in>set b. length r = cc" "\<forall>r\<in>set ys. length r = cc"
    and "\<forall>c\<in>set cd. int (length ys) < c" "v \<notin> set tgt"
  shows "trigger_run \<lparr>buf_input = b, countdown = cd, samples_pre = p, samples_post = q,
                       target = tgt, last_trigger = l\<rparr> (map (\<lambda>r. (r, v)) ys) =
         Inr (\<lparr>buf_input = drop (length ys) (b @ ys),
               countdown = map (\<lambda>c. c - int (length ys)) cd, samples_pre = p,
               samples_post = q, target = tgt,
               last_trigger = (if ys = [] then l else v)\<rparr>, replicate (length ys) None)"
  using assms
proof (induction ys arbitrary: b cd l)
  case Nil
  then show ?case by simp
next
  case (Cons y ys)
  have cd1: "\<forall>c\<in>set cd. 1 < c" using Cons.prems(4) by fastforce
  have step: "trigger_step \<lparr>buf_input = b, countdown = cd, samples_pre = p, samples_post = q,
                        target = tgt, last_trigger = l\<rparr> (y, v) =
         Inr (\<lparr>buf_input = tl b @ [y], countdown = map (\<lambda>c. c - 1) cd, samples_pre = p,
               samples_post = q, target = tgt, last_trigger = v\<rparr>, None)"
    using Cons.prems by (intro quiet_step[where cc = cc] cd1) simp_all
  have b': "tl b @ [y] \<noteq> []" by simp
  have rows: "\<forall>r\<in>set (tl b @ [y]). length r = cc"
    using Cons.prems(1,2,3) by (cases b) auto
  have cd': "\<forall>c\<in>set (map (\<lambda>c. c - 1) cd). int (length ys) < c"
    using Cons.prems(4) by auto
  have ys: "\<forall>r\<in>set ys. length r = cc" using Cons.prems(3) by simp
  note ih = Cons.IH[OF b' rows ys cd' Cons.prems(5), of v]
  have d: "drop (length ys) ((tl b @ [y]) @ ys) = drop (Suc (length ys)) (b @ y # ys)"
    using Cons.prems(1) by (cases b) simp_all
  have m: "map (\<lambda>c. c - int (length ys)) (map (\<lambda>c. c - 1) cd) = map (\<lambda>c. c - int (length (y # ys))) cd"
    by (simp add: algebra_simps)
  show ?case using step ih d m by simp
qed


lemma window_Nil [simp]: "window b [] = b"
  by (simp add: window_def)

lemma window_length [simp]: "length (window b h) = length b"
  by (simp add: window_def)

lemma window_rows:
  "\<forall>r\<in>set b. length r = cc \<Longrightarrow> \<forall>r\<in>set h. length r = cc \<Longrightarrow>
   \<forall>r\<in>set (window b h). length r = cc"
  unfolding window_def by (metis in_set_dropD set_append Un_iff)

lemma window_ne: "b \<noteq> [] \<Longrightarrow> window b h \<noteq> []"
  using window_length[of b h] by (metis length_0_conv)

lemma tl_drop_Suc: "tl (drop n L) = drop (Suc n) L"
  by (simp add: tl_drop drop_Suc)

lemma drop_snoc_le: "n \<le> length L \<Longrightarrow> drop n (L @ ys) = drop n L @ ys"
  by simp

lemma window_snoc:
  assumes "b \<noteq> []"
  shows "tl (window b h) @ [s] = window b (h @ [s])"
proof -
  have len: "Suc (length h) \<le> length (b @ h)" using assms by (cases b) simp_all
  have "window b (h @ [s]) = drop (Suc (length h)) ((b @ h) @ [s])"
    by (simp add: window_def)
  also have "\<dots> = drop (Suc (length h)) (b @ h) @ [s]"
    using len by (rule drop_snoc_le)
  also have "\<dots> = tl (drop (length h) (b @ h)) @ [s]"
    by (simp only: tl_drop_Suc)
  finally show ?thesis by (simp only: window_def)
qed

lemma window_append: "drop (length ys) (window b h @ ys) = window b (h @ ys)"
proof -
  have "window b (h @ ys) = drop (length ys + length h) ((b @ h) @ ys)"
    by (simp add: window_def add.commute)
  also have "\<dots> = drop (length ys) (drop (length h) ((b @ h) @ ys))"
    by (simp only: drop_drop)
  also have "drop (length h) ((b @ h) @ ys) = drop (length h) (b @ h) @ ys"
    by (rule drop_snoc_le) simp
  finally show ?thesis by (simp only: window_def)
qed


lemma quiet_run_window:
  assumes "b0 \<noteq> []" "\<forall>r\<in>set b0. length r = cc" "\<forall>r\<in>set h. length r = cc"
    and "\<forall>r\<in>set ys. length r = cc" "\<forall>c\<in>set cd. int (length ys) < c" "v \<notin> set tgt"
  shows "trigger_run \<lparr>buf_input = window b0 h, countdown = cd, samples_pre = p, samples_post = q,
                       target = tgt, last_trigger = l\<rparr> (map (\<lambda>r. (r, v)) ys) =
         Inr (\<lparr>buf_input = window b0 (h @ ys),
               countdown = map (\<lambda>c. c - int (length ys)) cd, samples_pre = p,
               samples_post = q, target = tgt,
               last_trigger = (if ys = [] then l else v)\<rparr>, replicate (length ys) None)"
  using quiet_run[OF window_ne[OF assms(1)] window_rows[OF assms(2,3)] assms(4,5,6),
      where p = p and q = q and l = l]
  by (simp only: window_append)

lemma start_step_window:
  assumes "b0 \<noteq> []" "\<forall>r\<in>set b0. length r = cc" "\<forall>r\<in>set h. length r = cc"
    and "length s = cc" "t \<in> set tgt" "t \<noteq> l" "2 \<le> q"
  shows "trigger_step \<lparr>buf_input = window b0 h, countdown = [], samples_pre = p, samples_post = q,
                        target = tgt, last_trigger = l\<rparr> (s, t) =
         Inr (\<lparr>buf_input = window b0 (h @ [s]), countdown = [q - 1], samples_pre = p,
               samples_post = q, target = tgt, last_trigger = t\<rparr>, None)"
proof -
  have sh: "shift_buffer (window b0 h) s = Inr (window b0 (h @ [s]))"
    using shift_buffer_ok[OF window_ne[OF assms(1)] window_rows[OF assms(2,3)] assms(4)]
    by (simp only: window_snoc[OF assms(1)])
  show ?thesis using sh assms(5,6,7)
    by (simp add: trigger_step_def detect_trigger_def Let_def)
qed

lemma fire_step_window:
  assumes "b0 \<noteq> []" "\<forall>r\<in>set b0. length r = cc" "\<forall>r\<in>set h. length r = cc"
    and "length s = cc" "v \<notin> set tgt"
  shows "trigger_step \<lparr>buf_input = window b0 h, countdown = [1], samples_pre = p, samples_post = q,
                        target = tgt, last_trigger = l\<rparr> (s, v) =
         Inr (\<lparr>buf_input = window b0 (h @ [s]), countdown = [], samples_pre = p,
               samples_post = q, target = tgt, last_trigger = v\<rparr>, Some (window b0 (h @ [s])))"
proof -
  have sh: "shift_buffer (window b0 h) s = Inr (window b0 (h @ [s]))"
    using shift_buffer_ok[OF window_ne[OF assms(1)] window_rows[OF assms(2,3)] assms(4)]
    by (simp only: window_snoc[OF assms(1)])
  show ?thesis using sh assms(5)
    by (cases "v = l") (simp_all add: trigger_step_def detect_trigger_def Let_def)
qed


lemma replicate_mid: "replicate a x @ x # replicate b x = replicate (Suc (a + b)) x"
  by (induction a) (simp_all add: replicate_app_Cons_same)

lemma single_trigger_run:
  fixes q :: nat
  assumes b0: "b0 \<noteq> []" and rb: "\<forall>r\<in>set b0. length r = cc"
    and rp: "\<forall>r\<in>set pre. length r = cc" and ls: "length s = cc"
    and rq: "\<forall>r\<in>set post. length r = cc"
    and v: "v \<notin> set tgt" and t: "t \<in> set tgt" and q: "2 \<le> q"
  shows "\<exists>st'. trigger_run \<lparr>buf_input = b0, countdown = [], samples_pre = p, samples_post = int q,
                        target = tgt, last_trigger = v\<rparr>
           (map (\<lambda>r. (r, v)) pre @ (s, t) # map (\<lambda>r. (r, v)) post) =
         Inr (st', if q - 1 \<le> length post
                   then replicate (length pre + (q - 1)) None
                        @ Some (window b0 (pre @ s # take (q - 1) post))
                        # replicate (length post - (q - 1)) None
                   else replicate (Suc (length pre + length post)) None)"
proof -
  let ?S = "\<lambda>b cd l. \<lparr>buf_input = b, countdown = cd, samples_pre = p, samples_post = int q,
                        target = tgt, last_trigger = l\<rparr>"
  have tv: "t \<noteq> v" using t v by auto
  have rn: "\<forall>r\<in>set ([]::row list). length r = cc" by simp
  have A: "trigger_run (?S b0 [] v) (map (\<lambda>r. (r, v)) pre) =
             Inr (?S (window b0 pre) [] v, replicate (length pre) None)"
    using quiet_run_window[OF b0 rb rn rp _ v, of "[]" p "int q" v] by simp
  have rps: "\<forall>r\<in>set (pre @ [s]). length r = cc" using rp ls by simp
  have B: "trigger_step (?S (window b0 pre) [] v) (s, t) =
             Inr (?S (window b0 (pre @ [s])) [int q - 1] t, None)"
    using q by (intro start_step_window[OF b0 rb rp ls t tv]) simp
  show ?thesis
  proof (cases "q - 1 \<le> length post")
    case False
    then have lt: "\<forall>c\<in>set [int q - 1]. int (length post) < c" by auto
    have C: "trigger_run (?S (window b0 (pre @ [s])) [int q - 1] t) (map (\<lambda>r. (r, v)) post) =
               Inr (?S (window b0 ((pre @ [s]) @ post)) [int q - 1 - int (length post)]
                      (if post = [] then t else v), replicate (length post) None)"
      using quiet_run_window[OF b0 rb rps rq lt v, of p "int q" t] by simp
    have "trigger_run (?S b0 [] v) (map (\<lambda>r. (r, v)) pre @ (s, t) # map (\<lambda>r. (r, v)) post) =
            Inr (?S (window b0 ((pre @ [s]) @ post)) [int q - 1 - int (length post)]
                      (if post = [] then t else v),
                 replicate (length pre) None @ None # replicate (length post) None)"
      using A B C by (simp add: trigger_run_append)
    then show ?thesis using False by (simp only: replicate_mid if_False) blast
  next
    case True
    define j where "j = q - 1"
    have j1: "1 \<le> j" and jq: "int q - 1 = int j" using q by (simp_all add: j_def)
    have jl: "j - 1 < length post" using True j1 by (simp add: j_def)
    define P1 where "P1 = take (j - 1) post"
    define x where "x = post ! (j - 1)"
    define P2 where "P2 = drop j post"
    have post: "post = P1 @ x # P2"
      using id_take_nth_drop[OF jl] j1 by (simp add: P1_def x_def P2_def)
    have l1: "length P1 = j - 1" using jl by (simp add: P1_def)
    have l2: "length P2 = length post - j" by (simp add: P2_def)
    have r1: "\<forall>r\<in>set P1. length r = cc" and lx: "length x = cc"
      and r2: "\<forall>r\<in>set P2. length r = cc"
      using rq post by (metis Un_iff set_append, metis in_set_conv_decomp, metis Un_iff set_append list.set_intros(2))
    have lt: "\<forall>c\<in>set [int q - 1]. int (length P1) < c" using l1 j1 jq by simp
    have C: "trigger_run (?S (window b0 (pre @ [s])) [int q - 1] t) (map (\<lambda>r. (r, v)) P1) =
               Inr (?S (window b0 ((pre @ [s]) @ P1)) [1]
                      (if P1 = [] then t else v), replicate (j - 1) None)"
      using quiet_run_window[OF b0 rb rps r1 lt v, of p "int q" t] l1 j1 jq by simp
    have rh: "\<forall>r\<in>set ((pre @ [s]) @ P1). length r = cc" using rp ls r1 by auto
    have W: "((pre @ [s]) @ P1) @ [x] = pre @ s # take j post"
      using take_Suc_conv_app_nth[OF jl] j1 by (simp add: P1_def x_def)
    have D: "trigger_step (?S (window b0 ((pre @ [s]) @ P1)) [1] (if P1 = [] then t else v)) (x, v) =
               Inr (?S (window b0 (pre @ s # take j post)) [] v,
                    Some (window b0 (pre @ s # take j post)))"
      using fire_step_window[OF b0 rb rh lx v, of p "int q"] by (simp only: W)
    have rh2: "\<forall>r\<in>set (pre @ s # take j post). length r = cc"
      using rp ls rq by (auto dest: in_set_takeD)
    have E: "trigger_run (?S (window b0 (pre @ s # take j post)) [] v) (map (\<lambda>r. (r, v)) P2) =
               Inr (?S (window b0 ((pre @ s # take j post) @ P2)) [] 
                      (if P2 = [] then v else v), replicate (length post - j) None)"
      using quiet_run_window[OF b0 rb rh2 r2 _ v, of "[]" p "int q" v] l2 by simp
    have inp: "map (\<lambda>r. (r, v)) post = map (\<lambda>r. (r, v)) P1 @ (x, v) # map (\<lambda>r. (r, v)) P2"
      by (simp add: post)
    have outs: "replicate (length pre) None @ None # replicate (j - 1) None
                  @ Some (window b0 (pre @ s # take j post)) # replicate (length post - j) None
                = replicate (length pre + j) (None::row list option)
                  @ Some (window b0 (pre @ s # take j post)) # replicate (length post - j) None"
    proof -
      have "replicate (length pre) None @ None # replicate (j - 1) (None::row list option)
            = replicate (length pre + j) None"
        using j1 replicate_mid[of "length pre" None "j - 1"] by simp
      then show ?thesis by simp
    qed
    have "trigger_run (?S b0 [] v) (map (\<lambda>r. (r, v)) pre @ (s, t) # map (\<lambda>r. (r, v)) post) =
            Inr (?S (window b0 ((pre @ s # take j post) @ P2)) [] v,
                 replicate (length pre) None @ None # replicate (j - 1) None
                  @ Some (window b0 (pre @ s # take j post)) # replicate (length post - j) None)"
      unfolding inp using A B C D E by (simp add: trigger_run_append)
    then show ?thesis using True outs by (auto simp: j_def)
  qed
qed


lemma feed_single_trigger_split:
  assumes "k < length xs"
  shows "feed_single_trigger xs k =
           map (\<lambda>r. (r, 0)) (take k xs) @ (xs ! k, 1) # map (\<lambda>r. (r, 0)) (drop (Suc k) xs)"
proof (rule nth_equalityI)
  show "length (feed_single_trigger xs k) =
        length (map (\<lambda>r. (r, 0)) (take k xs) @ (xs ! k, 1) # map (\<lambda>r. (r, 0)) (drop (Suc k) xs))"
    using assms by (simp add: feed_single_trigger_def)
next
  fix i assume "i < length (feed_single_trigger xs k)"
  then have i: "i < length xs" by (simp add: feed_single_trigger_def)
  consider "i < k" | "i = k" | "k < i" by linarith
  then show "feed_single_trigger xs k ! i =
        (map (\<lambda>r. (r, 0)) (take k xs) @ (xs ! k, 1) # map (\<lambda>r. (r, 0)) (drop (Suc k) xs)) ! i"
  proof cases
    case 1
    then show ?thesis using i assms by (simp add: feed_single_trigger_def nth_append)
  next
    case 2
    then show ?thesis using i assms by (simp add: feed_single_trigger_def nth_append)
  next
    case 3
    then obtain d where d: "i = Suc (k + d)" by (metis less_iff_Suc_add)
    then show ?thesis using i assms by (simp add: feed_single_trigger_def nth_append)
  qed
qed

lemma setup_epoch_example:
  "trigger_setup (1/5) (7/10) [1] 1 (Some 250) cc =
     Inr \<lparr> buf_input = replicate 225 (replicate cc 0), countdown = [], samples_pre = 50,
           samples_post = 175, target = [1], last_trigger = 0 \<rparr>"
  by (simp add: trigger_setup_def py_round_def Let_def)

lemma epoch_window:
  assumes "length X = 175"
  shows "window (replicate 225 z) (pre @ X) = drop (length pre) (replicate 50 z @ pre) @ X"
proof -
  have "window (replicate 225 z) (pre @ X)
        = drop (length pre + 175) ((replicate 225 z @ pre) @ X)"
    using assms by (simp add: window_def)
  also have "\<dots> = drop (length pre + 175) (replicate 225 z @ pre) @ X"
    by (rule drop_snoc_le) simp
  also have "drop (length pre + 175) (replicate 225 z @ pre)
             = drop (length pre) (drop 175 (replicate 225 z @ pre))"
    by (simp only: drop_drop)
  also have "drop 175 (replicate 225 z @ pre) = replicate 50 z @ pre"
    by simp
  finally show ?thesis .
qed

lemma trigger_session_single:
  assumes rows: "\<forall>r\<in>set xs. length r = cc" and k: "k < length xs"
  shows "trigger_session (1/5) (7/10) [1] 1 (Some 250) cc (feed_single_trigger xs k) =
           Inr (if k + 174 < length xs
                then replicate (k + 174) None
                     @ Some (drop k (replicate 50 (replicate cc 0) @ take k xs) @ take 175 (drop k xs))
                     # replicate (length xs - (k + 175)) None
                else replicate (length xs) None)"
proof -
  let ?pre = "take k xs" and ?post = "drop (Suc k) xs" and ?b0 = "replicate 225 (replicate cc (0::real))"
  have lp: "length ?pre = k" and lq: "length ?post = length xs - Suc k" using k by simp_all
  have b0: "?b0 \<noteq> []" by simp
  have rb: "\<forall>r\<in>set ?b0. length r = cc" by simp
  have rp: "\<forall>r\<in>set ?pre. length r = cc" using rows by (auto dest: in_set_takeD)
  have rq: "\<forall>r\<in>set ?post. length r = cc" using rows by (auto dest: in_set_dropD)
  have ls: "length (xs ! k) = cc" using rows k by simp
  obtain st' where run:
    "trigger_run \<lparr>buf_input = ?b0, countdown = [], samples_pre = 50, samples_post = int 175,
                        target = [1], last_trigger = 0\<rparr>
           (map (\<lambda>r. (r, 0)) ?pre @ (xs ! k, 1) # map (\<lambda>r. (r, 0)) ?post) =
         Inr (st', if 175 - 1 \<le> length ?post
                   then replicate (length ?pre + (175 - 1)) None
                        @ Some (window ?b0 (?pre @ xs ! k # take (175 - 1) ?post))
                        # replicate (length ?post - (175 - 1)) None
                   else replicate (Suc (length ?pre + length ?post)) None)"
    using single_trigger_run[OF b0 rb rp ls rq, of 0 "[1]" 1 175 50] by auto
  have sess: "trigger_session (1/5) (7/10) [1] 1 (Some 250) cc (feed_single_trigger xs k) =
     Inr (if 174 \<le> length ?post
                   then replicate (k + 174) None
                        @ Some (window ?b0 (?pre @ xs ! k # take 174 ?post))
                        # replicate (length ?post - 174) None
                   else replicate (Suc (k + length ?post)) None)"
    using run lp by (simp add: trigger_session_def setup_epoch_example feed_single_trigger_split[OF k])
  show ?thesis
  proof (cases "k + 174 < length xs")
    case True
    have c: "174 \<le> length ?post" using True by simp
    have X: "take 175 (drop k xs) = xs ! k # take 174 ?post"
      using k by (simp add: Cons_nth_drop_Suc[symmetric] numeral_eq_Suc)
    have lX: "length (xs ! k # take 174 ?post) = 175" using True by simp
    have W: "window ?b0 (?pre @ xs ! k # take 174 ?post)
          = drop k (replicate 50 (replicate cc 0) @ ?pre) @ take 175 (drop k xs)"
      using epoch_window[OF lX, of "replicate cc 0" ?pre] by (simp only: lp X)
    have L: "length ?post - 174 = length xs - (k + 175)" using True by simp
    show ?thesis
      unfolding sess by (simp only: if_P[OF c] if_P[OF True] W L)
  next
    case False
    have c: "\<not> 174 \<le> length ?post" using False by simp
    have L: "Suc (k + length ?post) = length xs" using k by simp
    show ?thesis
      unfolding sess by (simp only: if_not_P[OF c] if_not_P[OF False] L)
  qed
qed


text \<open>
  C1 (as amended): with \<open>time_pre = 0.2\<close>, \<open>time_post = 0.7\<close>, \<open>sampling_rate = 250\<close> and
  \<open>target = [1]\<close>, setup gives \<open>samples_pre = 50\<close> and \<open>samples_post = 175\<close>.  When the
  trigger reads 1 at sample index \<open>k\<close> and 0 elsewhere, the step with index
  \<open>k + 174\<close> (the 175th step counting the trigger step itself, 174 steps after it)
  returns one epoch and every other step returns nothing.  The epoch has
  \<open>225\<close> rows of \<open>channel_count\<close> values: its last 175 rows are the samples
  \<open>k .. k + 174\<close>, its first 50 rows are the samples \<open>k - 50 .. k - 1\<close>, with rows of
  zeros in front when fewer than 50 samples came before the trigger.  If the
  input ends before step \<open>k + 174\<close>, no step returns an epoch.
\<close>

theorem epoch_single_trigger:
  assumes "\<forall>r\<in>set xs. length r = cc" and "k < length xs"
  shows "trigger_session (1/5) (7/10) [1] 1 (Some 250) cc (feed_single_trigger xs k) =
           Inr (if k + 174 < length xs
                then replicate (k + 174) None
                     @ Some (drop k (replicate 50 (replicate cc 0) @ take k xs) @ take 175 (drop k xs))
                     # replicate (length xs - (k + 175)) None
                else replicate (length xs) None)
         \<and> length (drop k (replicate 50 (replicate cc 0) @ take k xs)) = 50
         \<and> (50 \<le> k \<longrightarrow> drop k (replicate 50 (replicate cc 0) @ take k xs) = take 50 (drop (k - 50) xs))
         \<and> (k + 174 < length xs \<longrightarrow> length (take 175 (drop k xs)) = 175)
         \<and> (\<forall>r \<in> set (drop k (replicate 50 (replicate cc 0) @ take k xs) @ take 175 (drop k xs)).
               length r = cc)"
proof -
  have a: "length (drop k (replicate 50 (replicate cc (0::real)) @ take k xs)) = 50"
    using assms(2) by simp
  have b: "50 \<le> k \<longrightarrow> drop k (replicate 50 (replicate cc 0) @ take k xs) = take 50 (drop (k - 50) xs)"
    by (simp add: drop_take)
  have c: "k + 174 < length xs \<longrightarrow> length (take 175 (drop k xs)) = 175" by simp
  have d: "\<forall>r \<in> set (drop k (replicate 50 (replicate cc 0) @ take k xs) @ take 175 (drop k xs)).
               length r = cc"
  proof
    fix r assume "r \<in> set (drop k (replicate 50 (replicate cc 0) @ take k xs) @ take 175 (drop k xs))"
    then have "r \<in> set (replicate 50 (replicate cc 0)) \<or> r \<in> set xs"
      by (auto dest!: in_set_dropD in_set_takeD)
    then show "length r = cc" using assms(1) by auto
  qed
  show ?thesis using trigger_session_single[OF assms] a b c d by blast
qed

theorem epoch_single_trigger_witness:
  "list_all (\<lambda>r. length r = 1) (replicate 300 [2::real]) \<and> 10 < length (replicate 300 [2::real])
   \<and> trigger_session (1/5) (7/10) [1] 1 (Some 250) 1 (feed_single_trigger (replicate 300 [2]) 10) =
       Inr (replicate 184 None
            @ Some (replicate 40 [0] @ replicate 10 [2] @ replicate 175 [2])
            # replicate 115 None)"
  using epoch_single_trigger[of "replicate 300 [2]" 1 10]
  by (simp add: replicate_add[symmetric] list_all_iff del: replicate_add)

text \<open>
  C1 as stated fails: with the trigger at sample 0 and 176 samples, the epoch
  leaves on step 174, and step 175, the one after exactly 175 further steps,
  returns nothing.
\<close>

theorem epoch_after_175_further_steps_counterexample:
  "trigger_session (1/5) (7/10) [1] 1 (Some 250) 1 (feed_single_trigger (replicate 176 [1]) 0) =
     Inr (replicate 174 None @ [Some (replicate 50 [0] @ replicate 175 [1]), None])
   \<and> trigger_session (1/5) (7/10) [1] 1 (Some 250) 1 (feed_single_trigger (replicate 176 [1]) 0) \<noteq>
     Inr (replicate 175 None @ [Some (replicate 50 [0] @ replicate 175 [1])])"
  using trigger_session_single[of "replicate 176 [1]" 1 0]
  by simp

section \<open>Properties of the port-context negotiation\<close>

lemma check_required_error:
  "check_required pcs = Some e \<Longrightarrow>
   e = ValueError ''channel_count must be provided in context.'' \<or>
   e = ValueError ''frame_size must be provided in context.''"
  by (induction pcs) (auto split: if_splits)

lemma negotiate_channel_count_error:
  "negotiate_channel_count pcs = Inl e \<Longrightarrow>
   e = ValueError ''All ports must have the same channel count.'' \<or> e = TypeError"
  by (auto simp: negotiate_channel_count_def Let_def py_max_def split: if_splits sum.splits)

lemma count_distinct_one:
  "count_distinct xs \<noteq> 1 \<longleftrightarrow> xs = [] \<or> (\<exists>a\<in>set xs. \<exists>b\<in>set xs. a \<noteq> b)"
proof -
  have "length (remdups xs) = card (set xs)" by (simp add: length_remdups_card_conv)
  moreover have "card (set xs) = 1 \<longleftrightarrow> xs \<noteq> [] \<and> (\<forall>a\<in>set xs. \<forall>b\<in>set xs. a = b)"
  proof
    assume "card (set xs) = 1"
    then obtain x where "set xs = {x}" by (auto simp: card_1_singleton_iff)
    then show "xs \<noteq> [] \<and> (\<forall>a\<in>set xs. \<forall>b\<in>set xs. a = b)" by auto
  next
    assume a: "xs \<noteq> [] \<and> (\<forall>a\<in>set xs. \<forall>b\<in>set xs. a = b)"
    then obtain x where "x \<in> set xs" by (cases xs) auto
    with a have "set xs = {x}" by auto
    then show "card (set xs) = 1" by simp
  qed
  ultimately show ?thesis by (auto simp: count_distinct_def)
qed

text \<open>
  C6 (as amended): ports without a sampling rate (the key absent, or its value
  \<open>None\<close>) are left out of the comparison, and setup raises the sampling-rate
  error exactly when the required keys are present and the sampling rates that
  are declared do not have exactly one distinct value: when two ports declare
  different rates, and also when no port declares one.  With exactly one
  declaring port the check passes.
\<close>

theorem io_setup_sampling_rate_error:
  "snd (io_setup output_ports pcs) = Inl (ValueError ''All ports must have the same sampling rate.'')
   \<longleftrightarrow> check_required pcs = None
        \<and> (declared ''sampling_rate'' pcs = []
           \<or> (\<exists>a \<in> set (declared ''sampling_rate'' pcs).
                \<exists>b \<in> set (declared ''sampling_rate'' pcs). a \<noteq> b))"
proof (cases "check_required pcs")
  case (Some e)
  then show ?thesis using check_required_error[OF Some]
    by (auto simp: io_setup_def)
next
  case None
  show ?thesis
  proof (cases "count_distinct (declared ''sampling_rate'' pcs) \<noteq> 1")
    case True
    then show ?thesis using None count_distinct_one[of "declared ''sampling_rate'' pcs"]
      by (simp add: io_setup_def)
  next
    case False
    have "snd (io_setup output_ports pcs) \<noteq> Inl (ValueError ''All ports must have the same sampling rate.'')"
    proof (cases "negotiate_channel_count pcs")
      case (Inl e)
      then show ?thesis using None False negotiate_channel_count_error[OF Inl]
        by (auto simp: io_setup_def)
    next
      case (Inr pcs')
      then show ?thesis using None False
        by (simp add: io_setup_def)
    qed
    then show ?thesis using False count_distinct_one[of "declared ''sampling_rate'' pcs"]
      by blast
  qed
qed

theorem io_setup_sampling_rate_error_witness:
  "snd (io_setup [''out''] [(''in'', [(''channel_count'', PNum 8), (''frame_size'', PNum 1),
                                     (''sampling_rate'', PNum 250)]),
                            (''trigger'', [(''channel_count'', PNum 1), (''frame_size'', PNum 1),
                                     (''sampling_rate'', PNum 500)])])
     = Inl (ValueError ''All ports must have the same sampling rate.'')
   \<and> snd (io_setup [''out''] [(''in'', [(''channel_count'', PNum 8), (''frame_size'', PNum 1),
                                     (''sampling_rate'', PNum 250)]),
                            (''trigger'', [(''channel_count'', PNum 1), (''frame_size'', PNum 1)])])
     \<noteq> Inl (ValueError ''All ports must have the same sampling rate.'')"
  using io_setup_sampling_rate_error[of "[''out'']" "[(''in'', [(''channel_count'', PNum 8), (''frame_size'', PNum 1),
                                     (''sampling_rate'', PNum 250)]),
                            (''trigger'', [(''channel_count'', PNum 1), (''frame_size'', PNum 1),
                                     (''sampling_rate'', PNum 500)])]"]
    io_setup_sampling_rate_error[of "[''out'']" "[(''in'', [(''channel_count'', PNum 8), (''frame_size'', PNum 1),
                                     (''sampling_rate'', PNum 250)]),
                            (''trigger'', [(''channel_count'', PNum 1), (''frame_size'', PNum 1)])]"]
  by (auto simp: declared_def dict_get_def)

text \<open>
  C6 as stated fails: one input port with the required keys and no sampling rate
  makes setup raise the sampling-rate error.
\<close>

theorem io_setup_no_sampling_rate_counterexample:
  "snd (io_setup [''out''] [(''in'', [(''channel_count'', PNum 8), (''frame_size'', PNum 1)])])
     = Inl (ValueError ''All ports must have the same sampling rate.'')"
  by (simp add: io_setup_def declared_def dict_get_def count_distinct_def)

lemma map_of_dict_set: "map_of (dict_set md key v) = (map_of md)(key \<mapsto> v)"
  by (induction md key v rule: dict_set.induct) (auto simp: fun_eq_iff)

lemma dict_get_dict_set [simp]: "dict_get (dict_set md key v) key = v"
  by (simp add: dict_get_def map_of_dict_set)

lemma port_values_broadcast:
  "key \<noteq> ''channel_count'' \<Longrightarrow>
   port_values (broadcast_channel_count m pcs) key = port_values pcs key"
  by (induction pcs)
     (auto simp: port_values_def broadcast_channel_count_def map_of_dict_set split: option.splits)

lemma negotiate_channel_count_Inr:
  assumes "negotiate_channel_count pcs = Inr pcs'"
  shows "pcs' = pcs \<or> (\<exists>m. pcs' = broadcast_channel_count m pcs)"
  using assms
  by (auto simp: negotiate_channel_count_def Let_def split: if_splits sum.splits)

lemma io_setup_Inr:
  assumes "io_setup output_ports pcs = (pcs', Inr res)"
  shows "negotiate_channel_count pcs = Inr pcs'"
    and "res = \<lparr> store = [merged_context pcs'],
                 port_context_out = map (\<lambda>name. (name, 0)) output_ports \<rparr>"
  using assms
  by (auto simp: io_setup_def split: option.splits if_splits sum.splits)

lemma all_keys_iff:
  "key \<in> set (all_keys pcs) \<longleftrightarrow> (\<exists>pc\<in>set pcs. key \<in> fst ` set (snd pc))"
  by (auto simp: all_keys_def)

lemma port_values_Nil_iff:
  "port_values pcs key = [] \<longleftrightarrow> \<not> (\<exists>pc\<in>set pcs. key \<in> fst ` set (snd pc))"
proof (induction pcs)
  case Nil
  then show ?case by (simp add: port_values_def)
next
  case (Cons pc pcs)
  have "map_of (snd pc) key = None \<longleftrightarrow> key \<notin> fst ` set (snd pc)"
    by (simp add: map_of_eq_None_iff)
  then show ?case using Cons
    by (auto simp: port_values_def split: option.splits)
qed

lemma map_of_merged_context:
  "map_of (merged_context pcs) key =
     (if key \<in> set (all_keys pcs) then Some (merge_key pcs key) else None)"
proof -
  have "map_of (map (\<lambda>k. (k, f k)) ks) key = (if key \<in> set ks then Some (f key) else None)"
    for f :: "string \<Rightarrow> mval" and ks
    by (induction ks) auto
  then show ?thesis by (simp add: merged_context_def)
qed

lemma map_of_port_context_out:
  "name \<in> set output_ports \<Longrightarrow> map_of (map (\<lambda>name. (name, a)) output_ports) name = Some a"
  by (induction output_ports) auto


lemma merge_key_cases:
  assumes "port_values pcs key \<noteq> []"
  shows "length (port_values pcs key) = 1 \<Longrightarrow>
           merge_key pcs key = Plain (snd (hd (port_values pcs key)))"
    and "1 < length (port_values pcs key) \<Longrightarrow>
         \<forall>pv\<in>set (port_values pcs key). snd pv = snd (hd (port_values pcs key)) \<Longrightarrow>
           merge_key pcs key = Plain (snd (hd (port_values pcs key)))"
    and "1 < length (port_values pcs key) \<Longrightarrow>
         \<exists>pv\<in>set (port_values pcs key). snd pv \<noteq> snd (hd (port_values pcs key)) \<Longrightarrow>
           merge_key pcs key = PerPort (port_values pcs key)"
proof -
  obtain pv rest where v: "port_values pcs key = pv # rest"
    using assms by (cases "port_values pcs key") auto
  show "length (port_values pcs key) = 1 \<Longrightarrow>
           merge_key pcs key = Plain (snd (hd (port_values pcs key)))"
    by (simp add: merge_key_def Let_def v)
  show "1 < length (port_values pcs key) \<Longrightarrow>
         \<forall>pv\<in>set (port_values pcs key). snd pv = snd (hd (port_values pcs key)) \<Longrightarrow>
           merge_key pcs key = Plain (snd (hd (port_values pcs key)))"
    by (simp add: merge_key_def Let_def v list_all_iff)
  show "1 < length (port_values pcs key) \<Longrightarrow>
         \<exists>pv\<in>set (port_values pcs key). snd pv \<noteq> snd (hd (port_values pcs key)) \<Longrightarrow>
           merge_key pcs key = PerPort (port_values pcs key)"
    by (auto simp: merge_key_def Let_def v list_all_iff)
qed

text \<open>
  C7: after a successful setup, every key that occurs in some input context (as
  the contexts stand when they are merged, that is after the broadcast of the
  channel count, which changes no other key) is mapped by the merged context to
  the value of the one port that has it, or to the common value when several
  ports have it with the same value, or else to the mapping from port name to
  that port's value; no other key is in the merged context; and every output
  port is given the same context object, the only one allocated.
\<close>

theorem io_setup_merged_context:
  assumes "io_setup output_ports pcs = (pcs', Inr res)"
  shows "store res = [merged_context pcs']
       \<and> (\<forall>name \<in> set output_ports. map_of (port_context_out res) name = Some 0)
       \<and> (\<forall>key. key \<noteq> ''channel_count'' \<longrightarrow> port_values pcs' key = port_values pcs key)
       \<and> (\<forall>key. (\<exists>pc\<in>set pcs'. key \<in> fst ` set (snd pc)) \<longrightarrow>
             (let vals = port_values pcs' key
              in vals \<noteq> []
               \<and> (length vals = 1 \<longrightarrow>
                    map_of (merged_context pcs') key = Some (Plain (snd (hd vals))))
               \<and> (1 < length vals \<and> (\<forall>pv\<in>set vals. snd pv = snd (hd vals)) \<longrightarrow>
                    map_of (merged_context pcs') key = Some (Plain (snd (hd vals))))
               \<and> (1 < length vals \<and> (\<exists>pv\<in>set vals. snd pv \<noteq> snd (hd vals)) \<longrightarrow>
                    map_of (merged_context pcs') key = Some (PerPort vals))))
       \<and> (\<forall>key. \<not> (\<exists>pc\<in>set pcs'. key \<in> fst ` set (snd pc)) \<longrightarrow>
             map_of (merged_context pcs') key = None)"
proof -
  note r = io_setup_Inr[OF assms]
  have a: "store res = [merged_context pcs']" by (simp add: r(2))
  have b: "\<forall>name \<in> set output_ports. map_of (port_context_out res) name = Some 0"
    by (simp add: r(2) map_of_port_context_out)
  have c: "\<forall>key. key \<noteq> ''channel_count'' \<longrightarrow> port_values pcs' key = port_values pcs key"
    using negotiate_channel_count_Inr[OF r(1)] port_values_broadcast by auto
  have d: "\<forall>key. (\<exists>pc\<in>set pcs'. key \<in> fst ` set (snd pc)) \<longrightarrow>
             (let vals = port_values pcs' key
              in vals \<noteq> []
               \<and> (length vals = 1 \<longrightarrow>
                    map_of (merged_context pcs') key = Some (Plain (snd (hd vals))))
               \<and> (1 < length vals \<and> (\<forall>pv\<in>set vals. snd pv = snd (hd vals)) \<longrightarrow>
                    map_of (merged_context pcs') key = Some (Plain (snd (hd vals))))
               \<and> (1 < length vals \<and> (\<exists>pv\<in>set vals. snd pv \<noteq> snd (hd vals)) \<longrightarrow>
                    map_of (merged_context pcs') key = Some (PerPort vals)))"
  proof (intro allI impI)
    fix key assume k: "\<exists>pc\<in>set pcs'. key \<in> fst ` set (snd pc)"
    then have ne: "port_values pcs' key \<noteq> []" using port_values_Nil_iff by blast
    have m: "map_of (merged_context pcs') key = Some (merge_key pcs' key)"
      using k by (simp add: map_of_merged_context all_keys_iff)
    show "let vals = port_values pcs' key
              in vals \<noteq> []
               \<and> (length vals = 1 \<longrightarrow>
                    map_of (merged_context pcs') key = Some (Plain (snd (hd vals))))
               \<and> (1 < length vals \<and> (\<forall>pv\<in>set vals. snd pv = snd (hd vals)) \<longrightarrow>
                    map_of (merged_context pcs') key = Some (Plain (snd (hd vals))))
               \<and> (1 < length vals \<and> (\<exists>pv\<in>set vals. snd pv \<noteq> snd (hd vals)) \<longrightarrow>
                    map_of (merged_context pcs') key = Some (PerPort vals))"
      unfolding Let_def m using ne merge_key_cases[OF ne] by blast
  qed
  have e: "\<forall>key. \<not> (\<exists>pc\<in>set pcs'. key \<in> fst ` set (snd pc)) \<longrightarrow>
             map_of (merged_context pcs') key = None"
    by (simp add: map_of_merged_context all_keys_iff)
  show ?thesis using a b c d e by blast
qed

lemma io_setup_example:
  "io_setup [''out'']
     [(''in'', [(''name'', PStr ''in''), (''channel_count'', PNum 8), (''frame_size'', PNum 1),
                (''sampling_rate'', PNum 250)]),
      (''trigger'', [(''name'', PStr ''trigger''), (''channel_count'', PNum 1),
                     (''frame_size'', PNum 1)])] =
   ([(''in'', [(''name'', PStr ''in''), (''channel_count'', PNum 8), (''frame_size'', PNum 1),
               (''sampling_rate'', PNum 250)]),
     (''trigger'', [(''name'', PStr ''trigger''), (''channel_count'', PNum 8),
                    (''frame_size'', PNum 1)])],
    Inr \<lparr> store = [[(''sampling_rate'', Plain (PNum 250)),
                     (''name'', PerPort [(''in'', PStr ''in''), (''trigger'', PStr ''trigger'')]),
                     (''channel_count'', Plain (PNum 8)),
                     (''frame_size'', Plain (PNum 1))]],
           port_context_out = [(''out'', 0)] \<rparr>)"
  by (simp add: io_setup_def declared_def dict_get_def count_distinct_def
      negotiate_channel_count_def py_max_def broadcast_channel_count_def
      merged_context_def all_keys_def merge_key_def port_values_def Let_def)


theorem io_setup_merged_context_witness:
  "io_setup [''out'']
     [(''in'', [(''name'', PStr ''in''), (''channel_count'', PNum 8), (''frame_size'', PNum 1),
                (''sampling_rate'', PNum 250)]),
      (''trigger'', [(''name'', PStr ''trigger''), (''channel_count'', PNum 1),
                     (''frame_size'', PNum 1)])] =
   ([(''in'', [(''name'', PStr ''in''), (''channel_count'', PNum 8), (''frame_size'', PNum 1),
               (''sampling_rate'', PNum 250)]),
     (''trigger'', [(''name'', PStr ''trigger''), (''channel_count'', PNum 8),
                    (''frame_size'', PNum 1)])],
    Inr \<lparr> store = [[(''sampling_rate'', Plain (PNum 250)),
                     (''name'', PerPort [(''in'', PStr ''in''), (''trigger'', PStr ''trigger'')]),
                     (''channel_count'', Plain (PNum 8)),
                     (''frame_size'', Plain (PNum 1))]],
           port_context_out = [(''out'', 0)] \<rparr>)
   \<and> map_of [(''out'', 0::nat)] ''out'' = Some 0
   \<and> map_of (merged_context
        [(''in'', [(''name'', PStr ''in''), (''channel_count'', PNum 8), (''frame_size'', PNum 1),
               (''sampling_rate'', PNum 250)]),
         (''trigger'', [(''name'', PStr ''trigger''), (''channel_count'', PNum 8),
                    (''frame_size'', PNum 1)])]) ''sampling_rate'' = Some (Plain (PNum 250))
   \<and> map_of (merged_context
        [(''in'', [(''name'', PStr ''in''), (''channel_count'', PNum 8), (''frame_size'', PNum 1),
               (''sampling_rate'', PNum 250)]),
         (''trigger'', [(''name'', PStr ''trigger''), (''channel_count'', PNum 8),
                    (''frame_size'', PNum 1)])]) ''frame_size'' = Some (Plain (PNum 1))
   \<and> map_of (merged_context
        [(''in'', [(''name'', PStr ''in''), (''channel_count'', PNum 8), (''frame_size'', PNum 1),
               (''sampling_rate'', PNum 250)]),
         (''trigger'', [(''name'', PStr ''trigger''), (''channel_count'', PNum 8),
                    (''frame_size'', PNum 1)])]) ''name'' =
         Some (PerPort [(''in'', PStr ''in''), (''trigger'', PStr ''trigger'')])"
proof -
  have m: "merged_context
        [(''in'', [(''name'', PStr ''in''), (''channel_count'', PNum 8), (''frame_size'', PNum 1),
               (''sampling_rate'', PNum 250)]),
         (''trigger'', [(''name'', PStr ''trigger''), (''channel_count'', PNum 8),
                    (''frame_size'', PNum 1)])] =
        [(''sampling_rate'', Plain (PNum 250)),
         (''name'', PerPort [(''in'', PStr ''in''), (''trigger'', PStr ''trigger'')]),
         (''channel_count'', Plain (PNum 8)),
         (''frame_size'', Plain (PNum 1))]"
    using io_setup_merged_context[OF io_setup_example, THEN conjunct1] by simp
  show ?thesis unfolding m using io_setup_example by simp
qed








section \<open>Properties of the channel router\<close>















lemma router_setup_two_single:
  "router_setup ''router'' [(''in1'', [0]), (''in2'', [0])] [(''out'', ROUTER_ALL)]
     [(''in1'', [(''channel_count'', PNum 1), (''frame_size'', PNum 2), (''sampling_rate'', PNum 250)]),
      (''in2'', [(''channel_count'', PNum 1), (''frame_size'', PNum 2), (''sampling_rate'', PNum 250)])]
   = Inr ([(''out'', [(''in1'', 0), (''in2'', 0)])],
          [(''out'',
            \<lparr>inherited =
               [(''router_in1'', [(''channel_count'', PNum 1), (''frame_size'', PNum 2),
                                  (''sampling_rate'', PNum 250)]),
                (''router_in2'', [(''channel_count'', PNum 1), (''frame_size'', PNum 2),
                                  (''sampling_rate'', PNum 250)])],
             channel_count = 2, sampling_rate = PNum 250, frame_size = PNum 2,
             port_type = PStr ''Any''\<rparr>)])"
  by (simp add: router_setup_def build_input_map_def build_map_def py_index_def ROUTER_ALL_def
      Let_def upt_rec declared_def dict_get_def count_distinct_def router_context_of_def)

text \<open>
  C5 on the code: with a negotiated frame size of 2, an output port that takes
  channel 0 of \<open>in1\<close> and channel 0 of \<open>in2\<close>, and a step in which \<open>in2\<close> is absent
  (or \<open>None\<close>), the placeholder has one row where the column of \<open>in1\<close> has two, and
  the step raises.  With frames of one row the same step returns a frame.
\<close>

theorem router_missing_input_raises:
  "router_step [(''out'', [(''in1'', 0), (''in2'', 0)])] [(''in1'', DArr (Arr 1 [[1], [2]]))] =
     Inl (ValueError ''all the input array dimensions except for the concatenation axis must match exactly'')
   \<and> router_step [(''out'', [(''in1'', 0), (''in2'', 0)])]
        [(''in1'', DArr (Arr 1 [[1], [2]])), (''in2'', DNone)] =
     Inl (ValueError ''all the input array dimensions except for the concatenation axis must match exactly'')
   \<and> router_step [(''out'', [(''in1'', 0), (''in2'', 0)])] [(''in1'', DArr (Arr 1 [[1]]))] =
     Inr [(''out'', Arr 2 [[1, 0]])]"
  by (simp add: router_step_def select_channel_def hstack_def Let_def)

section \<open>Properties of the frame aggregator\<close>

lemma framer_inv_step:
  assumes inv: "framer_inv xs F cc n b" and F: "0 < F" and lx: "length (xs ! n) = cc"
  shows "framer_inv xs F cc (Suc n) (b[n mod F := xs ! n])"
proof -
  have len: "length b = F" and rows: "\<forall>r\<in>set b. length r = cc"
    and old: "\<forall>m<n. n \<le> m + F \<longrightarrow> b ! (m mod F) = xs ! m"
    using inv by (auto simp: framer_inv_def list_all_iff)
  have idx: "n mod F < length b" using F len by simp
  have rows': "\<forall>r\<in>set (b[n mod F := xs ! n]). length r = cc"
    using rows lx by (auto dest!: set_update_subset_insert[THEN subsetD])
  have new: "\<forall>m<Suc n. Suc n \<le> m + F \<longrightarrow> (b[n mod F := xs ! n]) ! (m mod F) = xs ! m"
  proof (intro allI impI)
    fix m assume m: "m < Suc n" and w: "Suc n \<le> m + F"
    show "(b[n mod F := xs ! n]) ! (m mod F) = xs ! m"
    proof (cases "m = n")
      case True
      then show ?thesis using idx by simp
    next
      case False
      then have mn: "m < n" using m by simp
      have "m mod F \<noteq> n mod F"
      proof
        assume e: "m mod F = n mod F"
        then have "F dvd n - m" using mn by (metis mod_eq_dvd_iff_nat less_imp_le)
        moreover have "0 < n - m" "n - m < F" using mn w by simp_all
        ultimately show False by (auto dest: dvd_imp_le)
      qed
      moreover have "b ! (m mod F) = xs ! m" using old mn w by simp
      ultimately show ?thesis by simp
    qed
  qed
  show ?thesis using len rows' new by (simp add: framer_inv_def list_all_iff)
qed

lemma framer_inv_frame:
  assumes inv: "framer_inv xs F cc n b" and F: "0 < F" and d: "F dvd n" and n: "0 < n"
    and le: "n \<le> length xs"
  shows "b = take F (drop (n - F) xs)"
proof (rule nth_equalityI)
  have len: "length b = F"
    and old: "\<forall>m<n. n \<le> m + F \<longrightarrow> b ! (m mod F) = xs ! m"
    using inv by (auto simp: framer_inv_def list_all_iff)
  have Fn: "F \<le> n" using d n by (auto dest: dvd_imp_le)
  show "length b = length (take F (drop (n - F) xs))" using len le Fn by simp
  fix j assume "j < length b"
  then have j: "j < F" using len by simp
  obtain q where q: "n = F * q" using d by (auto elim: dvdE)
  then have q0: "0 < q" using n by (cases q) auto
  have nF: "n - F = F * (q - 1)" using q q0 by (simp add: right_diff_distrib')
  have m: "(n - F + j) mod F = j" using j nF by simp
  have "n - F + j < n" "n \<le> n - F + j + F" using j Fn by simp_all
  then have "b ! ((n - F + j) mod F) = xs ! (n - F + j)" using old by blast
  then show "b ! j = take F (drop (n - F) xs) ! j" using m j le Fn by simp
qed




lemma framer_step_inv:
  assumes inv: "framer_inv xs F cc n b" and F: "0 < F" and n: "n < length xs"
    and rows: "\<forall>r\<in>set xs. length r = cc"
  shows "framer_step \<lparr>buf = b, framer_frame_size = F\<rparr> (get_counter n)
           (is_decimation_step F n) [xs ! n] =
         Inr (\<lparr>buf = b[n mod F := xs ! n], framer_frame_size = F\<rparr>, framer_outputs F xs n)"
proof -
  have len: "length b = F" and rb: "\<forall>r\<in>set b. length r = cc"
    using inv by (auto simp: framer_inv_def list_all_iff)
  have idx: "n mod F < length b" using F len by simp
  have lx: "length (xs ! n) = cc" using rows n by simp
  have lb: "length (b ! (n mod F)) = cc" using rb idx by simp
  have w: "write_row b (n mod F) [xs ! n] = Inr (b[n mod F := xs ! n])"
    using idx lx lb by (simp add: write_row_def Let_def)
  have inv': "framer_inv xs F cc (Suc n) (b[n mod F := xs ! n])"
    using framer_inv_step[OF inv F lx] .
  have fr: "F dvd Suc n \<Longrightarrow> b[n mod F := xs ! n] = take F (drop (Suc n - F) xs)"
    using framer_inv_frame[OF inv' F] n by simp
  show ?thesis
    using w F fr
    by (auto simp: framer_step_def get_counter_def is_decimation_step_def framer_outputs_def
        mod_eq_0_iff_dvd)
qed

lemma framer_run_inv:
  assumes F: "0 < F" and rows: "\<forall>r\<in>set xs. length r = cc"
  shows "k = length xs - n \<Longrightarrow> n \<le> length xs \<Longrightarrow> framer_inv xs F cc n b \<Longrightarrow>
         \<exists>st'. framer_run \<lparr>buf = b, framer_frame_size = F\<rparr> n (map (\<lambda>s. [s]) (drop n xs)) =
           Inr (st', map (framer_outputs F xs) [n..<length xs])"
proof (induction k arbitrary: n b)
  case 0
  then show ?case by simp
next
  case (Suc k)
  then have n: "n < length xs" by simp
  have d: "drop n xs = xs ! n # drop (Suc n) xs" using n by (simp add: Cons_nth_drop_Suc)
  have u: "[n..<length xs] = n # [Suc n..<length xs]" using n by (simp add: upt_conv_Cons)
  have lx: "length (xs ! n) = cc" using rows n by simp
  note step = framer_step_inv[OF Suc.prems(3) F n rows]
  have inv': "framer_inv xs F cc (Suc n) (b[n mod F := xs ! n])"
    using framer_inv_step[OF Suc.prems(3) F lx] .
  have k: "k = length xs - Suc n" using Suc.prems(1) by simp
  obtain st' where run: "framer_run \<lparr>buf = b[n mod F := xs ! n], framer_frame_size = F\<rparr> (Suc n)
        (map (\<lambda>s. [s]) (drop (Suc n) xs)) = Inr (st', map (framer_outputs F xs) [Suc n..<length xs])"
    using Suc.IH[OF k _ inv'] n by auto
  show ?case unfolding d u using step run by simp
qed

lemma framer_inv_init: "framer_inv xs F cc 0 (replicate F (replicate cc 0))"
  by (simp add: framer_inv_def list_all_iff)

lemma emitted_outputs:
  assumes F: "0 < F"
  shows "emitted (map (framer_outputs F xs) [0..<n]) =
         map (\<lambda>j. take F (drop (j * F) xs)) [0..<n div F]"
proof (induction n)
  case 0
  then show ?case by (simp add: emitted_def map_filter_simps)
next
  case (Suc n)
  have app: "emitted (ys @ [y]) = emitted ys @ (case y of None \<Rightarrow> [] | Some f \<Rightarrow> [f])"
    for ys :: "row list option list" and y
    by (simp add: emitted_def map_filter_def split: option.splits)
  show ?case
  proof (cases "F dvd Suc n")
    case True
    then have dv: "Suc n div F = Suc (n div F)" using F by (simp add: div_Suc mod_eq_0_iff_dvd)
    have "n div F * F = Suc n - F"
    proof -
      have "Suc n = Suc n div F * F" using True by simp
      then have "Suc n = n div F * F + F" using dv by simp
      then show ?thesis by simp
    qed
    then show ?thesis using Suc True dv by (simp add: app framer_outputs_def)
  next
    case False
    then have "Suc n div F = n div F" using F by (simp add: div_Suc mod_eq_0_iff_dvd)
    then show ?thesis using Suc False by (simp add: app framer_outputs_def)
  qed
qed


text \<open>
  C2: for every frame size \<open>F \<ge> 1\<close> and every stream of \<open>N\<close> single samples, the
  Frame Aggregator returns a frame on the steps whose count is a multiple of \<open>F\<close>
  and nothing on the others; the frames returned over the \<open>N\<close> steps are, in order,
  the groups of \<open>F\<close> consecutive samples \<open>xs[jF .. jF + F - 1]\<close> for \<open>j < N div F\<close>, so
  there are exactly \<open>N div F\<close> of them, each of \<open>F\<close> rows, and none when \<open>N < F\<close>.
\<close>

theorem framer_frames:
  assumes F: "1 \<le> F" and rows: "\<forall>r\<in>set xs. length r = cc"
  shows "framer_session (Some (int F)) cc xs = Inr (map (framer_outputs F xs) [0..<length xs])
       \<and> emitted (map (framer_outputs F xs) [0..<length xs]) =
           map (\<lambda>j. take F (drop (j * F) xs)) [0..<length xs div F]
       \<and> length (emitted (map (framer_outputs F xs) [0..<length xs])) = length xs div F
       \<and> (\<forall>j < length xs div F. length (take F (drop (j * F) xs)) = F)
       \<and> (length xs < F \<longrightarrow>
            map (framer_outputs F xs) [0..<length xs] = replicate (length xs) None)"
proof -
  have F0: "0 < F" using F by simp
  have init: "framer_init (Some (int F)) = Inr F" using F by (simp add: framer_init_def)
  have su: "framer_setup F 1 cc = Inr \<lparr>buf = replicate F (replicate cc 0), framer_frame_size = F\<rparr>"
    by (simp add: framer_setup_def)
  obtain st' where run:
    "framer_run \<lparr>buf = replicate F (replicate cc 0), framer_frame_size = F\<rparr> 0
        (map (\<lambda>s. [s]) xs) = Inr (st', map (framer_outputs F xs) [0..<length xs])"
    using framer_run_inv[OF F0 rows refl, where n = 0 and b = "replicate F (replicate cc 0)"]
      framer_inv_init[of xs F cc]
    by auto
  have a: "framer_session (Some (int F)) cc xs = Inr (map (framer_outputs F xs) [0..<length xs])"
    by (simp add: framer_session_def init su run)
  note b = emitted_outputs[OF F0, of xs "length xs"]
  have c: "length (emitted (map (framer_outputs F xs) [0..<length xs])) = length xs div F"
    by (simp add: b)
  have d: "\<forall>j < length xs div F. length (take F (drop (j * F) xs)) = F"
  proof (intro allI impI)
    fix j assume "j < length xs div F"
    then have "Suc j \<le> length xs div F" by simp
    then have "Suc j * F \<le> length xs div F * F" by (rule mult_le_mono1)
    also have "\<dots> \<le> length xs" by simp
    finally have "j * F + F \<le> length xs" by simp
    then show "length (take F (drop (j * F) xs)) = F" by simp
  qed
  have e: "length xs < F \<longrightarrow>
            map (framer_outputs F xs) [0..<length xs] = replicate (length xs) None"
  proof
    assume lt: "length xs < F"
    have "\<And>i. i < length xs \<Longrightarrow> framer_outputs F xs i = None"
      using lt by (auto simp: framer_outputs_def dest!: dvd_imp_le)
    then show "map (framer_outputs F xs) [0..<length xs] = replicate (length xs) None"
      by (intro nth_equalityI) simp_all
  qed
  show ?thesis using a b c d e by blast
qed

lemma framer_outputs_example:
  "map (framer_outputs 3 [[1], [2], [3], [4], [5], [6], [7]])
       [0..<length [[1], [2], [3], [4], [5], [6], [7::real]]] =
     [None, None, Some [[1], [2], [3]], None, None, Some [[4], [5], [6]], None]"
  "map (framer_outputs 3 [[1], [2]]) [0..<length [[1], [2::real]]] = [None, None]"
  by code_simp+

theorem framer_frames_witness:
  "list_all (\<lambda>r. length r = 1) [[1], [2], [3], [4], [5], [6], [7::real]]
   \<and> framer_session (Some 3) 1 [[1], [2], [3], [4], [5], [6], [7]] =
       Inr [None, None, Some [[1], [2], [3]], None, None, Some [[4], [5], [6]], None]
   \<and> emitted [None, None, Some [[1], [2], [3::real]], None, None, Some [[4], [5], [6]], None] =
       [[[1], [2], [3]], [[4], [5], [6]]]
   \<and> framer_session (Some 3) 1 [[1], [2]] = Inr [None, None]"
proof -
  have a: "framer_session (Some 3) 1 [[1], [2], [3], [4], [5], [6], [7]] =
       Inr [None, None, Some [[1], [2], [3]], None, None, Some [[4], [5], [6]], None]"
    using framer_frames[of 3 "[[1], [2], [3], [4], [5], [6], [7]]" 1, THEN conjunct1]
    unfolding framer_outputs_example by simp
  have b: "framer_session (Some 3) 1 [[1], [2]] = Inr [None, None]"
    using framer_frames[of 3 "[[1], [2]]" 1, THEN conjunct1]
    unfolding framer_outputs_example by simp
  have c: "emitted [None, None, Some [[1], [2], [3::real]], None, None, Some [[4], [5], [6]], None] =
       [[[1], [2], [3]], [[4], [5], [6]]]"
    by (simp add: emitted_def map_filter_simps)
  show ?thesis using a b c by simp
qed

section \<open>Properties of the fixed-rate source\<close>

lemma restart_keeps_time_start:
  "time_start st = Some t0 \<Longrightarrow>
   time_start (source_start (source_stop st) now) = Some t0"
  by (simp add: source_start_def source_stop_def thread_begin_def)

text \<open>
  C8 on the code: a source started at clock reading 100, stopped after some
  samples and started again at clock reading 200 restarts its sample count at 0
  but keeps the start time 100, so the first sample of the second run is
  expected at \<open>100 + 1/250\<close>, not at \<open>200 + 1/250\<close>, and the loop does not sleep.
\<close>

theorem fixed_rate_restart_keeps_time_start:
  "source_init 250 = Inr \<lparr> rate = 250, running = False, time_start = None, sample_count = 0 \<rparr>
   \<and> source_start \<lparr> rate = 250, running = False, time_start = None, sample_count = 0 \<rparr> 100
       = \<lparr> rate = 250, running = True, time_start = Some 100, sample_count = 0 \<rparr>
   \<and> source_start (source_stop \<lparr> rate = 250, running = True, time_start = Some 100,
                                  sample_count = 7 \<rparr>) 200
       = \<lparr> rate = 250, running = True, time_start = Some 100, sample_count = 0 \<rparr>
   \<and> loop_iteration \<lparr> rate = 250, running = True, time_start = Some 100, sample_count = 0 \<rparr> 200
       = Inr (\<lparr> rate = 250, running = True, time_start = Some 100, sample_count = 1 \<rparr>,
              100 + 1 / 250, 0)"
  by (simp add: source_init_def source_start_def source_stop_def thread_begin_def
      loop_iteration_def Let_def)

end
